theory Spec2Isabelle
  imports Main "HOL-Library.Word"
begin

unbundle bit_operations_syntax

section \<open>Bytes and buffers\<close>

text \<open>
  A buffer is a list of bytes; a pointer into it is an index (\<open>nat\<close>), so that
  \<open>cur < end\<close> of the source is a comparison of indices. The 32-bit variables of the
  decoders are \<open>32 word\<close>: their arithmetic wraps as \<open>uint32_t\<close> does.
\<close>

type_synonym byte = "8 word"

section \<open>The LZ decoder: \<open>HostDecompressor_SNAPPY::Decompress\<close> (uncomp.cpp)\<close>

text \<open>
  The length prefix (lines 486--495): 7-bit groups, least significant first. \<open>None\<close> is
  the \<open>return 0\<close> inside the loop.
\<close>

function snappy_varint :: "byte list \<Rightarrow> nat \<Rightarrow> nat \<Rightarrow> 32 word \<Rightarrow> (32 word \<times> nat) option" where
  "snappy_varint src cur l usize =
     (let c = (ucast (src ! cur) :: 32 word);
          cur' = cur + 1;
          lo7 = c AND 0x7f
      in if l \<ge> 28 \<and> c > 0xf then None
         else let usize' = usize OR push_bit l lo7;
                  l' = l + 7
              in if c > 0x7f \<and> cur' < length src
                 then snappy_varint src cur' l' usize'
                 else Some (usize', cur'))"
  by pat_completeness auto
termination
  by (relation "measure (\<lambda>(src, cur, l, usize). length src - cur)") auto

text \<open>
  The state of the element loop (lines 502--557): the source cursor, the destination
  buffer, and the two counters.
\<close>

record lz_state =
  lz_cur :: nat
  dstBytes :: "byte list"
  dst_pos :: "32 word"
  bytes_left :: "32 word"

text \<open>
  One pass of the loop body ends in a \<open>break\<close> (\<open>Abort\<close>), at the loop condition
  (\<open>Step\<close>), or in a store outside the destination buffer (\<open>OutOfBounds\<close>, undefined
  behaviour in the source).
\<close>

datatype lz_result = Abort lz_state | Step lz_state | OutOfBounds

text \<open>A 16-bit little-endian load, \<open>*reinterpret_cast<const uint16_t*>(cur)\<close>.\<close>

definition load16 :: "byte list \<Rightarrow> nat \<Rightarrow> 32 word" where
  "load16 src i = ucast (src ! i) OR push_bit 8 (ucast (src ! (i + 1)))"

text \<open>
  The header of a copy element (lines 509--527): offset, length and the cursor behind the
  header; \<open>None\<close> where the source breaks because the header runs past the buffer.
\<close>

definition copy_header :: "byte list \<Rightarrow> nat \<Rightarrow> 32 word \<Rightarrow> (32 word \<times> 32 word \<times> nat) option" where
  "copy_header src c1 blen =
     (if blen AND 2 \<noteq> 0 then
        (if c1 + 2 > length src then None
         else let offset = load16 src c1; c2 = c1 + 2
              in if blen AND 1 \<noteq> 0 then
                   (if c2 + 2 > length src then None
                    else Some (offset OR push_bit 16 (load16 src c2), drop_bit 2 blen + 1, c2 + 2))
                 else Some (offset, drop_bit 2 blen + 1, c2))
      else
        (if c1 \<ge> length src then None
         else Some (push_bit 3 (blen AND 0xe0) OR ucast (src ! c1),
                    (drop_bit 2 blen AND 7) + 4, c1 + 1)))"

lemma unat_dec_less: "blen \<noteq> (1::32 word) \<Longrightarrow> unat (blen - 2) < unat (blen - 1)"
proof -
  assume "blen \<noteq> 1"
  then have nz: "blen - 1 \<noteq> 0" by simp
  have "unat ((blen - 1) - 1) = unat (blen - 1) - 1" using nz by (rule unat_minus_one)
  moreover have "unat (blen - 1) \<noteq> 0" using nz by (simp add: unat_eq_0)
  moreover have "(blen - 1) - 1 = blen - 2" by simp
  ultimately show ?thesis by simp
qed

text \<open>
  The byte-by-byte copy (lines 530--533), a \<open>do ... while (--blen)\<close>: source and target
  may overlap. \<open>None\<close> is an access outside the destination buffer.
\<close>

function copy_loop :: "byte list \<Rightarrow> 32 word \<Rightarrow> 32 word \<Rightarrow> 32 word \<Rightarrow> (byte list \<times> 32 word) option" where
  "copy_loop d pos offset blen =
     (if unat pos < length d \<and> unat (pos - offset) < length d then
        (let d' = d[unat pos := d ! unat (pos - offset)];
             pos' = pos + 1;
             blen' = blen - 1
         in if blen' \<noteq> 0 then copy_loop d' pos' offset blen' else Some (d', pos'))
      else None)"
  by pat_completeness auto
termination
  by (relation "measure (\<lambda>(d, pos, offset, blen). unat (blen - 1))")
     (auto simp: unat_dec_less)

text \<open>
  The length of a literal (lines 536--550), from the tag's 6-bit field: the length and the
  cursor behind the length bytes.
\<close>

definition literal_header :: "byte list \<Rightarrow> nat \<Rightarrow> 32 word \<Rightarrow> (32 word \<times> nat) option" where
  "literal_header src c1 fld =
     (if fld \<ge> 60 then
        (let num_bytes = fld - 59 in
         if c1 + unat num_bytes \<ge> length src then None
         else let b0 = (ucast (src ! c1) :: 32 word);
                  b1 = (if num_bytes > 1 then b0 OR push_bit 8 (ucast (src ! (c1 + 1))) else b0);
                  b2 = (if num_bytes > 1 \<and> num_bytes > 2
                        then b1 OR push_bit 16 (ucast (src ! (c1 + 2))) else b1);
                  b3 = (if num_bytes > 1 \<and> num_bytes > 2 \<and> num_bytes > 3
                        then b2 OR push_bit 24 (ucast (src ! (c1 + 3))) else b2)
              in Some (b3 + 1, c1 + unat num_bytes))
      else Some (fld + 1, c1))"

text \<open>\<open>memcpy(dstBytes + dst_pos, cur, blen)\<close>.\<close>

definition memcpy :: "byte list \<Rightarrow> nat \<Rightarrow> byte list \<Rightarrow> byte list option" where
  "memcpy d pos bs =
     (if pos + length bs \<le> length d
      then Some (take pos d @ bs @ drop (pos + length bs) d)
      else None)"

definition lz_element :: "byte list \<Rightarrow> lz_state \<Rightarrow> lz_result" where
  "lz_element src st =
     (let blen = (ucast (src ! lz_cur st) :: 32 word);
          c1 = lz_cur st + 1
      in if blen AND 3 \<noteq> 0 then
           (case copy_header src c1 blen of
              None \<Rightarrow> Abort (st\<lparr>lz_cur := c1\<rparr>)
            | Some (offset, blen', c2) \<Rightarrow>
                if offset - 1 \<ge> dst_pos st \<or> blen' > bytes_left st then Abort (st\<lparr>lz_cur := c2\<rparr>)
                else (case copy_loop (dstBytes st) (dst_pos st) offset blen' of
                        None \<Rightarrow> OutOfBounds
                      | Some (d, p) \<Rightarrow>
                          Step \<lparr>lz_cur = c2, dstBytes = d, dst_pos = p,
                                bytes_left = bytes_left st - blen'\<rparr>))
         else
           (case literal_header src c1 (drop_bit 2 blen) of
              None \<Rightarrow> Abort (st\<lparr>lz_cur := c1\<rparr>)
            | Some (blen', c2) \<Rightarrow>
                if c2 + unat blen' > length src \<or> blen' > bytes_left st then Abort (st\<lparr>lz_cur := c2\<rparr>)
                else (case memcpy (dstBytes st) (unat (dst_pos st)) (take (unat blen') (drop c2 src)) of
                        None \<Rightarrow> OutOfBounds
                      | Some d \<Rightarrow>
                          Step \<lparr>lz_cur = c2 + unat blen', dstBytes = d, dst_pos = dst_pos st + blen',
                                bytes_left = bytes_left st - blen'\<rparr>)))"

lemma copy_header_cur: "copy_header src c1 blen = Some (offset, blen', c2) \<Longrightarrow> c1 < c2"
  by (auto simp: copy_header_def Let_def split: if_splits)

lemma literal_header_cur: "literal_header src c1 fld = Some (blen', c2) \<Longrightarrow> c1 \<le> c2"
  by (auto simp: literal_header_def Let_def split: if_splits)

lemma lz_element_cur: "lz_element src st = Step st' \<Longrightarrow> lz_cur st < lz_cur st'"
  unfolding lz_element_def Let_def
  by (auto split: if_splits option.splits prod.splits
           dest!: copy_header_cur literal_header_cur)

text \<open>The loop \<open>do ... while (bytes_left && cur < end)\<close>; \<open>None\<close> is undefined behaviour.\<close>

function lz77 :: "byte list \<Rightarrow> lz_state \<Rightarrow> lz_state option" where
  "lz77 src st =
     (case lz_element src st of
        OutOfBounds \<Rightarrow> None
      | Abort st' \<Rightarrow> Some st'
      | Step st' \<Rightarrow>
          if bytes_left st' \<noteq> 0 \<and> lz_cur st' < length src then lz77 src st' else Some st')"
  by pat_completeness auto
termination
proof (relation "measure (\<lambda>(src, st). length src - lz_cur st)")
  fix src st st'
  assume "lz_element src st = Step st'" and "bytes_left st' \<noteq> 0 \<and> lz_cur st' < length src"
  then show "((src, st'), (src, st)) \<in> measure (\<lambda>(src, st). length src - lz_cur st)"
    using lz_element_cur [of src st st'] by (clarsimp, arith)
qed simp

text \<open>The state at the first element: nothing produced, the declared size left.\<close>

definition lz_init :: "nat \<Rightarrow> byte list \<Rightarrow> 32 word \<Rightarrow> lz_state" where
  "lz_init c d n = \<lparr>lz_cur = c, dstBytes = d, dst_pos = 0, bytes_left = n\<rparr>"

text \<open>
  \<open>Decompress\<close>: the destination pointer may be null (\<open>None\<close>); \<open>dstLen\<close> is the
  capacity the caller declares. The result is the returned size and the destination
  buffer; \<open>None\<close> is undefined behaviour.
\<close>

definition Decompress :: "byte list option \<Rightarrow> nat \<Rightarrow> byte list \<Rightarrow> (nat \<times> byte list option) option" where
  "Decompress dstB dstLen srcBytes =
     (case dstB of
        None \<Rightarrow> Some (0, None)
      | Some d \<Rightarrow>
          if length srcBytes < 1 then Some (0, Some d)
          else (case snappy_varint srcBytes 0 0 0 of
                  None \<Rightarrow> Some (0, Some d)
                | Some (uncompressed_size, c) \<Rightarrow>
                    if uncompressed_size = 0 \<or> unat uncompressed_size > dstLen \<or> c \<ge> length srcBytes
                    then Some (0, Some d)
                    else (case lz77 srcBytes (lz_init c d uncompressed_size) of
                            None \<Rightarrow> None
                          | Some st \<Rightarrow>
                              Some (if bytes_left st \<noteq> 0 then 0 else unat uncompressed_size,
                                    Some (dstBytes st)))))"


text \<open>
  The states at which the loop body is entered: the first one, and every state a completed
  element leaves while \<open>bytes_left && cur < end\<close> holds.
\<close>

inductive lz_reach :: "byte list \<Rightarrow> lz_state \<Rightarrow> lz_state \<Rightarrow> bool" for src :: "byte list" and s0 :: lz_state where
  lz_reach_start: "lz_reach src s0 s0"
| lz_reach_step: "lz_reach src s0 st \<Longrightarrow> lz_element src st = Step st' \<Longrightarrow>
     bytes_left st' \<noteq> 0 \<Longrightarrow> lz_cur st' < length src \<Longrightarrow> lz_reach src s0 st'"

text \<open>
  The loop invariant: what has been produced and what is left add up to the declared size
  \<open>n\<close>, and the destination buffer holds at least \<open>n\<close> bytes.
\<close>

definition lz_inv :: "32 word \<Rightarrow> lz_state \<Rightarrow> bool" where
  "lz_inv n st \<longleftrightarrow> unat (dst_pos st) + unat (bytes_left st) = unat n \<and> unat n \<le> length (dstBytes st)"

text \<open>
  The literal length as the format describes it, on natural numbers: the value of a byte
  string read least significant byte first, and the length and cursor a literal tag with
  6-bit field \<open>fld\<close> selects. Fields below 60 carry the length minus one themselves;
  the fields 60 to 63 announce 1 to 4 length bytes.
\<close>

fun le_value :: "byte list \<Rightarrow> nat" where
  "le_value [] = 0"
| "le_value (b # bs) = unat b + 256 * le_value bs"


text \<open>
  The header of a copy element, read off the format: a tag \<open>t\<close> whose low two bits are
  01, 10 or 11 is followed by 1, 2 or 4 offset bytes. With one offset byte the offset has
  11 bits, the upper three from bits 5 to 7 of the tag, and the length is bits 2 to 4 of
  the tag plus 4; with 2 or 4 offset bytes the offset is their little-endian value and the
  length is the upper six bits of the tag plus 1.
\<close>

definition copy_header_size :: "nat \<Rightarrow> nat" where
  "copy_header_size tag = (if tag mod 4 = 1 then 1 else if tag mod 4 = 2 then 2 else 4)"

definition copy_offset :: "byte list \<Rightarrow> nat \<Rightarrow> nat \<Rightarrow> nat" where
  "copy_offset src c1 tag =
     (if tag mod 4 = 1 then 256 * (tag div 32) + unat (src ! c1)
      else le_value (take (copy_header_size tag) (drop c1 src)))"

definition copy_length :: "nat \<Rightarrow> nat" where
  "copy_length tag = (if tag mod 4 = 1 then (tag div 4) mod 8 + 4 else tag div 4 + 1)"

subsection \<open>Properties of the LZ decoder\<close>

declare snappy_varint.simps [simp del] copy_loop.simps [simp del] lz77.simps [simp del]

lemma lz77_reach: "lz_reach src s0 st \<Longrightarrow> lz77 src s0 = lz77 src st"
proof (induction rule: lz_reach.induct)
  case lz_reach_start
  show ?case by simp
next
  case (lz_reach_step st st')
  have "lz77 src st = lz77 src st'"
    using lz_reach_step.hyps(2,3,4) by (subst lz77.simps) simp
  with lz_reach_step.IH show ?case by simp
qed

lemma lz_element_Step_left: "lz_element src st = Abort st' \<Longrightarrow> bytes_left st' = bytes_left st"
  unfolding lz_element_def Let_def
  by (auto split: if_splits option.splits prod.splits)

lemma lz_reach_left: "lz_reach src s0 st \<Longrightarrow> bytes_left s0 \<noteq> 0 \<Longrightarrow> bytes_left st \<noteq> 0"
  by (induction rule: lz_reach.induct) auto

lemma offset_guard: "(offset - 1 \<ge> (pos :: 32 word)) \<longleftrightarrow> \<not> (1 \<le> offset \<and> offset \<le> pos)"
proof (cases "offset = 0")
  case True
  then show ?thesis by simp
next
  case False
  then have "unat (offset - 1) = unat offset - 1" and "unat offset \<noteq> 0"
    by (simp_all add: unat_minus_one unat_eq_0)
  then show ?thesis using False
    by (auto simp: word_le_nat_alt)
qed


lemma copy_loop_ok:
  "blen \<noteq> 0 \<Longrightarrow> unat pos + unat blen \<le> length d \<Longrightarrow> unat pos + unat blen < 2 ^ 32 \<Longrightarrow>
   offset \<le> pos \<Longrightarrow>
   \<exists>d'. copy_loop d pos offset blen = Some (d', pos + blen) \<and> length d' = length d \<and>
        (\<forall>i. i < unat pos \<or> unat pos + unat blen \<le> i \<longrightarrow> d' ! i = d ! i)"
proof (induction d pos offset blen rule: copy_loop.induct)
  case (1 d pos offset blen)
  from "1.prems" have blen1: "1 \<le> unat blen"
    by (simp add: unat_eq_0 Suc_le_eq unat_gt_0)
  have sub: "unat (blen - 1) = unat blen - 1"
    using "1.prems"(1) by (rule unat_minus_one)
  have inr: "unat pos < length d" using "1.prems" blen1 by arith
  have "unat (pos - offset) \<le> unat pos"
    using "1.prems"(4) by (simp add: unat_sub)
  with inr have inr2: "unat (pos - offset) < length d" by arith
  have pos1: "unat (pos + 1) = unat pos + 1"
    using "1.prems"(3) blen1 by (simp add: unat_add_lem [THEN iffD1])
  let ?d = "d[unat pos := d ! unat (pos - offset)]"
  show ?case
  proof (cases "blen - 1 = 0")
    case True
    then have "blen = 1" by simp
    then show ?thesis
      using inr inr2 by (subst copy_loop.simps) (auto simp: Let_def)
  next
    case False
    have "offset \<le> pos + 1"
      using "1.prems"(4) pos1 by (simp add: word_le_nat_alt)
    then have "\<exists>d'. copy_loop ?d (pos + 1) offset (blen - 1) = Some (d', pos + 1 + (blen - 1)) \<and>
        length d' = length ?d \<and>
        (\<forall>i. i < unat (pos + 1) \<or> unat (pos + 1) + unat (blen - 1) \<le> i \<longrightarrow> d' ! i = ?d ! i)"
      using "1.IH" [OF _ refl refl refl False False] inr inr2 "1.prems" sub pos1 blen1
      by simp
    then obtain d' where d': "copy_loop ?d (pos + 1) offset (blen - 1) = Some (d', pos + 1 + (blen - 1))"
        "length d' = length ?d"
        "\<forall>i. i < unat (pos + 1) \<or> unat (pos + 1) + unat (blen - 1) \<le> i \<longrightarrow> d' ! i = ?d ! i"
      by blast
    have "copy_loop d pos offset blen = Some (d', pos + blen)"
      using d'(1) inr inr2 False by (subst copy_loop.simps) (simp add: Let_def)
    moreover have "\<forall>i. i < unat pos \<or> unat pos + unat blen \<le> i \<longrightarrow> d' ! i = d ! i"
      using d'(3) pos1 sub blen1 by auto
    ultimately show ?thesis using d'(2) by simp
  qed
qed

lemma memcpy_ok:
  "pos + length bs \<le> length d \<Longrightarrow>
   \<exists>d'. memcpy d pos bs = Some d' \<and> length d' = length d \<and>
        (\<forall>i. i < pos \<or> pos + length bs \<le> i \<longrightarrow> d' ! i = d ! i)"
  by (auto simp: memcpy_def nth_append)


lemma unat_byte: "unat (b :: byte) < 256"
  using unsigned_less [of b, where 'a = nat] by simp

lemma unat_ucast_byte: "unat (ucast (b :: byte) :: 32 word) = unat b"
proof -
  have "unat (ucast b :: 32 word) = take_bit 32 (unat b)"
    by (simp add: unsigned_ucast_eq)
  also have "\<dots> = unat b"
    using unat_byte [of b] by (simp add: take_bit_nat_eq_self_iff)
  finally show ?thesis .
qed

lemma tag_len6: "unat (drop_bit 2 (ucast (b :: byte) :: 32 word) + 1) = unat b div 4 + 1"
proof -
  have a: "unat (drop_bit 2 (ucast b :: 32 word)) = unat b div 4"
    by (simp add: unat_ucast_byte drop_bit_eq_div unat_div_distrib)
  have "unat b div 4 + 1 < 2 ^ 32" using unat_byte [of b] by simp
  then show ?thesis using a 
    by (simp add: unat_add_lem [THEN iffD1])
qed

lemma tag_len3: "unat ((drop_bit 2 (ucast (b :: byte) :: 32 word) AND 7) + 4) = (unat b div 4) mod 8 + 4"
proof -
  have a: "unat (drop_bit 2 (ucast b :: 32 word) AND 7) = (unat b div 4) mod 8"
  proof -
    have "drop_bit 2 (ucast b :: 32 word) AND 7 = take_bit 3 (drop_bit 2 (ucast b :: 32 word))"
      using take_bit_eq_mask [of 3 "drop_bit 2 (ucast b :: 32 word)"] by (simp add: mask_eq_exp_minus_1)
    then show ?thesis
      by (simp add: unat_ucast_byte drop_bit_eq_div take_bit_eq_mod unat_div_distrib unat_mod_distrib)
  qed
  have "(unat b div 4) mod 8 + 4 < 2 ^ 32" by simp
  then show ?thesis using a
    by (simp add: unat_add_lem [THEN iffD1])
qed

lemma copy_header_len:
  "copy_header src c1 (ucast (b :: byte)) = Some (offset, blen', c2) \<Longrightarrow> 1 \<le> unat blen' \<and> unat blen' \<le> 64"
proof -
  assume h: "copy_header src c1 (ucast b) = Some (offset, blen', c2)"
  have "unat b div 4 + 1 \<le> 64" using unat_byte [of b] by simp
  moreover have "(unat b div 4) mod 8 + 4 \<le> 64" by simp
  moreover from h have "blen' = drop_bit 2 (ucast b) + 1 \<or> blen' = (drop_bit 2 (ucast b) AND 7) + 4"
    by (auto simp: copy_header_def Let_def split: if_splits)
  ultimately show ?thesis
    using tag_len6 [of b] tag_len3 [of b] by auto
qed


lemma lz_element_safe:
  assumes inv: "lz_inv n st"
  shows "case lz_element src st of
           OutOfBounds \<Rightarrow> False
         | Abort st' \<Rightarrow> dstBytes st' = dstBytes st \<and> dst_pos st' = dst_pos st \<and>
                        bytes_left st' = bytes_left st
         | Step st' \<Rightarrow> lz_inv n st' \<and> length (dstBytes st') = length (dstBytes st) \<and>
                       (\<forall>i. unat n \<le> i \<longrightarrow> dstBytes st' ! i = dstBytes st ! i)"
proof -
  define N where "N = unat n"
  from inv have sum: "unat (dst_pos st) + unat (bytes_left st) = N"
    and cap: "N \<le> length (dstBytes st)" by (simp_all add: lz_inv_def N_def)
  have N: "N < 2 ^ 32"
    unfolding N_def using unsigned_less [of n, where 'a = nat] by simp
  let ?tag = "ucast (src ! lz_cur st) :: 32 word"
  show ?thesis
  proof (cases "?tag AND 3 \<noteq> 0")
    case True
    show ?thesis
    proof (cases "copy_header src (lz_cur st + 1) ?tag")
      case None
      with True show ?thesis by (simp add: lz_element_def Let_def)
    next
      case (Some t)
      then obtain offset blen' c2 where t: "copy_header src (lz_cur st + 1) ?tag = Some (offset, blen', c2)"
        by (cases t) auto
      show ?thesis
      proof (cases "offset - 1 \<ge> dst_pos st \<or> blen' > bytes_left st")
        case True
        with \<open>?tag AND 3 \<noteq> 0\<close> t show ?thesis by (simp add: lz_element_def Let_def)
      next
        case False
        then have off: "1 \<le> offset" "offset \<le> dst_pos st" and le: "blen' \<le> bytes_left st"
          using offset_guard [of "dst_pos st" offset] by auto
        from copy_header_len [OF t] have b1: "1 \<le> unat blen'" by simp
        then have bnz: "blen' \<noteq> 0" by (auto simp: unat_eq_0)
        have le': "unat blen' \<le> unat (bytes_left st)" using le by (simp add: word_le_nat_alt)
        have left: "unat (bytes_left st - blen') = unat (bytes_left st) - unat blen'"
          using le by (simp add: unat_sub)
        have fit: "unat (dst_pos st) + unat blen' \<le> length (dstBytes st)"
          using sum cap le' by arith
        have fit2: "unat (dst_pos st) + unat blen' < 2 ^ 32"
          using sum N le' by arith
        from copy_loop_ok [OF bnz fit fit2 off(2)] obtain d' where
          d': "copy_loop (dstBytes st) (dst_pos st) offset blen' = Some (d', dst_pos st + blen')"
              "length d' = length (dstBytes st)"
              "\<forall>i. i < unat (dst_pos st) \<or> unat (dst_pos st) + unat blen' \<le> i \<longrightarrow> d' ! i = dstBytes st ! i"
          by blast
        have pos: "unat (dst_pos st + blen') = unat (dst_pos st) + unat blen'"
          using fit2 by (simp add: unat_add_lem [THEN iffD1])
        have el: "lz_element src st = Step \<lparr>lz_cur = c2, dstBytes = d', dst_pos = dst_pos st + blen',
                         bytes_left = bytes_left st - blen'\<rparr>"
          using \<open>?tag AND 3 \<noteq> 0\<close> t False d'(1) by (simp add: lz_element_def Let_def)
        have "\<forall>i. N \<le> i \<longrightarrow> d' ! i = dstBytes st ! i"
          using d'(3) sum le' by auto
        then show ?thesis
          using el d'(2) pos left sum cap le' by (simp add: lz_inv_def N_def)
      qed
    qed
  next
    case False
    then have lit: "?tag AND 3 = 0" by simp
    show ?thesis
    proof (cases "literal_header src (lz_cur st + 1) (drop_bit 2 ?tag)")
      case None
      with lit show ?thesis by (simp add: lz_element_def Let_def)
    next
      case (Some t)
      then obtain blen' c2 where t: "literal_header src (lz_cur st + 1) (drop_bit 2 ?tag) = Some (blen', c2)"
        by (cases t) auto
      show ?thesis
      proof (cases "c2 + unat blen' > length src \<or> blen' > bytes_left st")
        case True
        with lit t show ?thesis by (simp add: lz_element_def Let_def)
      next
        case False
        then have src: "c2 + unat blen' \<le> length src" and le: "blen' \<le> bytes_left st" by auto
        have le': "unat blen' \<le> unat (bytes_left st)" using le by (simp add: word_le_nat_alt)
        have left: "unat (bytes_left st - blen') = unat (bytes_left st) - unat blen'"
          using le by (simp add: unat_sub)
        let ?bs = "take (unat blen') (drop c2 src)"
        have len: "length ?bs = unat blen'" using src by simp
        have fit: "unat (dst_pos st) + length ?bs \<le> length (dstBytes st)"
          using sum cap le' len by arith
        from memcpy_ok [OF fit] obtain d' where
          d': "memcpy (dstBytes st) (unat (dst_pos st)) ?bs = Some d'"
              "length d' = length (dstBytes st)"
              "\<forall>i. i < unat (dst_pos st) \<or> unat (dst_pos st) + length ?bs \<le> i \<longrightarrow> d' ! i = dstBytes st ! i"
          by blast
        have fit2: "unat (dst_pos st) + unat blen' < 2 ^ 32"
          using sum N le' by arith
        have pos: "unat (dst_pos st + blen') = unat (dst_pos st) + unat blen'"
          using fit2 by (simp add: unat_add_lem [THEN iffD1])
        have el: "lz_element src st = Step \<lparr>lz_cur = c2 + unat blen', dstBytes = d',
                         dst_pos = dst_pos st + blen', bytes_left = bytes_left st - blen'\<rparr>"
          using lit t False d'(1) by (simp add: lz_element_def Let_def)
        have "\<forall>i. N \<le> i \<longrightarrow> d' ! i = dstBytes st ! i"
          using d'(3) sum le' len by auto
        then show ?thesis
          using el d'(2) pos left sum cap le' by (simp add: lz_inv_def N_def)
      qed
    qed
  qed
qed


lemma lz77_safe:
  "lz_inv n st \<Longrightarrow>
   \<exists>st'. lz77 src st = Some st' \<and> lz_inv n st' \<and> length (dstBytes st') = length (dstBytes st) \<and>
         (\<forall>i. unat n \<le> i \<longrightarrow> dstBytes st' ! i = dstBytes st ! i)"
proof (induction src st rule: lz77.induct)
  case (1 src st)
  note safe = lz_element_safe [OF "1.prems", of src]
  show ?case
  proof (cases "lz_element src st")
    case (Abort st')
    with safe "1.prems" show ?thesis
      by (subst lz77.simps) (simp add: lz_inv_def)
  next
    case (Step st')
    with safe have st': "lz_inv n st'" "length (dstBytes st') = length (dstBytes st)"
      "\<forall>i. unat n \<le> i \<longrightarrow> dstBytes st' ! i = dstBytes st ! i" by simp_all
    show ?thesis
    proof (cases "bytes_left st' \<noteq> 0 \<and> lz_cur st' < length src")
      case True
      from "1.IH" [OF Step True st'(1)] obtain st'' where
        "lz77 src st' = Some st''" "lz_inv n st''" "length (dstBytes st'') = length (dstBytes st')"
        "\<forall>i. unat n \<le> i \<longrightarrow> dstBytes st'' ! i = dstBytes st' ! i" by blast
      then show ?thesis using Step True st'
        by (subst lz77.simps) simp
    next
      case False
      then show ?thesis using Step st'
        by (subst lz77.simps) auto
    qed
  next
    case OutOfBounds
    with safe show ?thesis by simp
  qed
qed

lemma lz_reach_cons:
  "lz_reach src s1 st \<Longrightarrow> lz_element src s0 = Step s1 \<Longrightarrow> bytes_left s1 \<noteq> 0 \<Longrightarrow>
   lz_cur s1 < length src \<Longrightarrow> lz_reach src s0 st"
proof (induction rule: lz_reach.induct)
  case lz_reach_start
  then show ?case by (blast intro: lz_reach.intros)
next
  case (lz_reach_step st st')
  then show ?case by (blast intro: lz_reach.intros)
qed

lemma lz77_complete:
  "lz77 src s = Some st \<Longrightarrow> bytes_left s \<noteq> 0 \<Longrightarrow> bytes_left st = 0 \<Longrightarrow>
   \<exists>sp. lz_reach src s sp \<and> lz_element src sp = Step st"
proof (induction src s rule: lz77.induct)
  case (1 src s)
  show ?case
  proof (cases "lz_element src s")
    case (Abort st')
    with "1.prems"(1) have "st = st'" by (subst (asm) lz77.simps) simp
    with Abort "1.prems" lz_element_Step_left [of src s st'] show ?thesis by simp
  next
    case (Step st')
    show ?thesis
    proof (cases "bytes_left st' \<noteq> 0 \<and> lz_cur st' < length src")
      case True
      with Step "1.prems"(1) have "lz77 src st' = Some st" by (subst (asm) lz77.simps) simp
      from "1.IH" [OF Step True this _ "1.prems"(3)] True obtain sp where
        "lz_reach src st' sp" "lz_element src sp = Step st" by blast
      then show ?thesis using lz_reach_cons [OF _ Step] True by blast
    next
      case False
      with Step "1.prems"(1) have "st = st'" by (subst (asm) lz77.simps) (simp split: if_splits)
      with Step show ?thesis by (blast intro: lz_reach.intros)
    qed
  next
    case OutOfBounds
    with "1.prems"(1) show ?thesis by (subst (asm) lz77.simps) simp
  qed
qed


lemma byte_or_shift:
  "(ucast (b :: byte) :: 32 word) OR push_bit 8 w = of_nat (unat b) + 256 * w"
proof -
  have "(ucast b :: 32 word) AND push_bit 8 w = 0"
    by (rule bit_eqI) (auto simp: bit_simps dest: bit_imp_le_length)
  then have "(ucast b :: 32 word) OR push_bit 8 w = ucast b + push_bit 8 w"
    by (simp add: disjunctive_add_eq_or)
  then show ?thesis by (simp add: push_bit_eq_mult)
qed

lemma push_or: "push_bit n ((a :: 32 word) OR b) = push_bit n a OR push_bit n b"
  by (rule bit_eqI) (auto simp: bit_simps)

lemma le1: "(ucast (b0 :: byte) :: 32 word) = of_nat (le_value [b0])"
  by simp

lemma le2: "(ucast (b0 :: byte) :: 32 word) OR push_bit 8 (ucast (b1 :: byte)) = of_nat (le_value [b0, b1])"
  by (simp add: byte_or_shift)


lemma le4: "(ucast (b0 :: byte) :: 32 word) OR push_bit 8 (ucast (b1 :: byte)) OR push_bit 16 (ucast (b2 :: byte))
    OR push_bit 24 (ucast (b3 :: byte)) = of_nat (le_value [b0, b1, b2, b3])"
proof -
  have "(ucast b0 :: 32 word) OR push_bit 8 (ucast b1) OR push_bit 16 (ucast b2) OR push_bit 24 (ucast b3)
      = ucast b0 OR push_bit 8 (ucast b1 OR push_bit 8 (ucast b2 OR push_bit 8 (ucast b3)))"
    by (simp add: push_or push_bit_push_bit or.assoc)
  then show ?thesis by (simp add: byte_or_shift)
qed










lemma tag_and3: "unat ((ucast (b :: byte) :: 32 word) AND 3) = unat b mod 4"
proof -
  have "(ucast b :: 32 word) AND 3 = take_bit 2 (ucast b :: 32 word)"
    using take_bit_eq_mask [of 2 "ucast b :: 32 word"] by (simp add: mask_eq_exp_minus_1)
  then show ?thesis
    by (simp add: unat_ucast_byte take_bit_eq_mod unat_mod_distrib)
qed

lemma tag_and1: "unat ((ucast (b :: byte) :: 32 word) AND 1) = unat b mod 2"
proof -
  have "(ucast b :: 32 word) AND 1 = take_bit 1 (ucast b :: 32 word)"
    using take_bit_eq_mask [of 1 "ucast b :: 32 word"] by (simp add: mask_eq_exp_minus_1)
  then show ?thesis
    by (simp add: unat_ucast_byte take_bit_eq_mod unat_mod_distrib)
qed

lemma mod4_bit1: "odd ((x :: nat) div 2) \<longleftrightarrow> 2 \<le> x mod 4"
proof -
  define q where "q = x div 2 mod 2"
  define r where "r = x mod 2"
  have e: "x mod 4 = 2 * q + r"
    using mod_mult2_eq [of x 2 2] by (simp add: q_def r_def)
  have b: "q < 2" "r < 2" by (simp_all add: q_def r_def)
  have o: "odd (x div 2) \<longleftrightarrow> q = 1"
    unfolding q_def by (rule odd_iff_mod_2_eq_one)
  show ?thesis unfolding o e using b by arith
qed

lemma tag_and2: "(ucast (b :: byte) :: 32 word) AND 2 \<noteq> 0 \<longleftrightarrow> 2 \<le> unat b mod 4"
proof -
  have "(ucast b :: 32 word) AND 2 ^ 1 = 0 \<longleftrightarrow> \<not> bit (ucast b :: 32 word) 1"
    by (rule and_exp_eq_0_iff_not_bit)
  moreover have "bit (ucast b :: 32 word) 1 \<longleftrightarrow> bit (unat b) 1"
    by (simp add: bit_simps)
  moreover have "bit (unat b) 1 \<longleftrightarrow> odd (unat b div 2)"
    by (simp add: bit_iff_odd)
  ultimately show ?thesis unfolding mod4_bit1 [symmetric] by simp
qed

lemma tag_hi3: "(ucast (b :: byte) :: 32 word) AND 0xe0 = push_bit 5 (drop_bit 5 (ucast b))"
proof -
  have m: "(0xe0 :: 32 word) = push_bit 5 (mask 3)"
    by (simp add: mask_eq_exp_minus_1 push_bit_eq_mult)
  have "(ucast b :: 32 word) AND push_bit 5 (mask 3) = push_bit 5 (drop_bit 5 (ucast b))"
  proof (rule bit_eqI)
    fix n
    assume "possible_bit TYPE(32 word) n"
    have "bit b n \<Longrightarrow> n < 8" using bit_imp_le_length [of b n] by simp
    then show "bit ((ucast b :: 32 word) AND push_bit 5 (mask 3)) n \<longleftrightarrow> bit (push_bit 5 (drop_bit 5 (ucast b)) :: 32 word) n"
      by (auto simp: bit_simps)
  qed
  then show ?thesis by (simp only: m)
qed

lemma tag_offset11:
  "unat (push_bit 3 ((ucast (b :: byte) :: 32 word) AND 0xe0) OR ucast (c :: byte)) = 256 * (unat b div 32) + unat c"
proof -
  have "push_bit 3 ((ucast b :: 32 word) AND 0xe0) OR ucast c = ucast c OR push_bit 8 (drop_bit 5 (ucast b))"
    by (simp add: tag_hi3 push_bit_push_bit or.commute)
  also have "\<dots> = of_nat (unat c) + 256 * drop_bit 5 (ucast b)"
    by (rule byte_or_shift)
  finally have e0: "push_bit 3 ((ucast b :: 32 word) AND 0xe0) OR ucast c
      = of_nat (unat c) + 256 * drop_bit 5 (ucast b)" .
  have "unat (drop_bit 5 (ucast b :: 32 word)) = unat b div 32"
    by (simp add: unat_ucast_byte drop_bit_eq_div unat_div_distrib)
  then have "drop_bit 5 (ucast b :: 32 word) = of_nat (unat b div 32)"
    by (metis of_nat_unat ucast_id)
  with e0 have e: "push_bit 3 ((ucast b :: 32 word) AND 0xe0) OR ucast c = of_nat (unat c + 256 * (unat b div 32))"
    by simp
  have "unat c + 256 * (unat b div 32) < 2 ^ 32"
    using unat_byte [of b] unat_byte [of c] by simp
  then show ?thesis by (simp only: e unat_of_nat) simp
qed

lemma copy_header_None_iff:
  assumes "unat (tag :: byte) mod 4 \<noteq> 0"
  shows "copy_header src c1 (ucast tag) = None \<longleftrightarrow> length src < c1 + copy_header_size (unat tag)"
proof -
  have o: "(ucast tag :: 32 word) AND 1 \<noteq> 0 \<longleftrightarrow> unat tag mod 2 = 1"
    using tag_and1 [of tag] by (metis unat_eq_0 mod_2_eq_odd not_mod_2_eq_1_eq_0)
  have m: "unat tag mod 4 mod 2 = unat tag mod 2" by (simp add: mod_mod_cancel)
  show ?thesis using assms m
    by (auto simp: copy_header_def copy_header_size_def Let_def tag_and2 o) arith+
qed

lemma take_drop_le2:
  "p + 2 \<le> length s \<Longrightarrow> take 2 (drop p s) = [s ! p, s ! (p + 1)]"
  by (rule nth_equalityI) (auto simp: nth_Cons' less_Suc_eq eval_nat_numeral)

lemma take_drop_le4:
  "p + 4 \<le> length s \<Longrightarrow> take 4 (drop p s) = [s ! p, s ! (p + 1), s ! (p + 2), s ! (p + 3)]"
  by (rule nth_equalityI) (auto simp: nth_Cons' less_Suc_eq eval_nat_numeral)

lemma le_value_bound: "le_value bs < 256 ^ length bs"
proof (induction bs)
  case Nil
  show ?case by simp
next
  case (Cons b bs)
  have "unat b + 256 * le_value bs < 256 + 256 * le_value bs" using unat_byte [of b] by simp
  also have "\<dots> = 256 * (le_value bs + 1)" by simp
  also have "\<dots> \<le> 256 * 256 ^ length bs" using Cons.IH by (simp del: mult_Suc_right)
  finally show ?case by simp
qed

lemma unat_le_value2: "unat (of_nat (le_value [b0, b1]) :: 32 word) = le_value [b0, b1]"
proof -
  have "le_value [b0, b1] < 2 ^ 32" using le_value_bound [of "[b0, b1]"] by simp
  then show ?thesis by (simp only: unat_of_nat) simp
qed

lemma unat_le_value4: "unat (of_nat (le_value [b0, b1, b2, b3]) :: 32 word) = le_value [b0, b1, b2, b3]"
proof -
  have "le_value [b0, b1, b2, b3] < 2 ^ 32" using le_value_bound [of "[b0, b1, b2, b3]"] by simp
  then show ?thesis by (simp only: unat_of_nat) simp
qed

lemma load16_pair:
  "load16 src c OR push_bit 16 (load16 src (c + 2))
     = of_nat (le_value [src ! c, src ! (c + 1), src ! (c + 2), src ! (c + 3)])"
proof -
  have "load16 src c OR push_bit 16 (load16 src (c + 2))
      = ucast (src ! c) OR push_bit 8 (ucast (src ! (c + 1))) OR push_bit 16 (ucast (src ! (c + 2)))
          OR push_bit 24 (ucast (src ! (c + 3)))"
    by (simp add: load16_def push_or push_bit_push_bit or.assoc add.commute numeral_3_eq_3)
  then show ?thesis by (simp only: le4)
qed

lemma copy_header_Some:
  assumes h: "copy_header src c1 (ucast (tag :: byte)) = Some (offset, blen, c2)"
    and t: "unat tag mod 4 \<noteq> 0"
  shows "unat offset = copy_offset src c1 (unat tag) \<and> unat blen = copy_length (unat tag) \<and>
         c2 = c1 + copy_header_size (unat tag)"
proof -
  have o: "(ucast tag :: 32 word) AND 1 \<noteq> 0 \<longleftrightarrow> unat tag mod 2 = 1"
    using tag_and1 [of tag] by (metis unat_eq_0 mod_2_eq_odd not_mod_2_eq_1_eq_0)
  have m: "unat tag mod 4 mod 2 = unat tag mod 2" by (simp add: mod_mod_cancel)
  have "unat tag mod 4 < 4" by simp
  with t consider "unat tag mod 4 = 1" | "unat tag mod 4 = 2" | "unat tag mod 4 = 3" by arith
  then show ?thesis
  proof cases
    case 1
    then have a: "\<not> (ucast tag :: 32 word) AND 2 \<noteq> 0" by (simp add: tag_and2)
    with h have e: "offset = push_bit 3 ((ucast tag :: 32 word) AND 0xe0) OR ucast (src ! c1)"
      "blen = (drop_bit 2 (ucast tag) AND 7) + 4" "c2 = c1 + 1"
      by (simp_all add: copy_header_def split: if_splits)
    have "unat offset = 256 * (unat tag div 32) + unat (src ! c1)"
      by (simp only: e tag_offset11)
    moreover have "unat blen = (unat tag div 4) mod 8 + 4"
      by (simp only: e tag_len3)
    ultimately show ?thesis using 1 e(3)
      by (simp add: copy_offset_def copy_length_def copy_header_size_def)
  next
    case 2
    then have a: "(ucast tag :: 32 word) AND 2 \<noteq> 0" by (simp add: tag_and2)
    from 2 m have b: "\<not> (ucast tag :: 32 word) AND 1 \<noteq> 0" unfolding o by simp
    from h a b have len: "c1 + 2 \<le> length src" and "offset = load16 src c1"
      and "blen = drop_bit 2 (ucast tag) + 1" and "c2 = c1 + 2"
      by (auto simp: copy_header_def Let_def split: if_splits)
    moreover have "unat (load16 src c1) = le_value (take 2 (drop c1 src))"
      by (simp only: take_drop_le2 [OF len] load16_def le2 unat_le_value2)
    ultimately show ?thesis using 2
      by (simp add: tag_len6 copy_offset_def copy_length_def copy_header_size_def)
  next
    case 3
    then have a: "(ucast tag :: 32 word) AND 2 \<noteq> 0" by (simp add: tag_and2)
    from 3 m have b: "(ucast tag :: 32 word) AND 1 \<noteq> 0" unfolding o by simp
    from h a b have len: "c1 + 4 \<le> length src"
      and "offset = load16 src c1 OR push_bit 16 (load16 src (c1 + 2))"
      and "blen = drop_bit 2 (ucast tag) + 1" and "c2 = c1 + 4"
      by (auto simp: copy_header_def Let_def split: if_splits)
    moreover have "unat (load16 src c1 OR push_bit 16 (load16 src (c1 + 2))) = le_value (take 4 (drop c1 src))"
      by (simp only: take_drop_le4 [OF len] load16_pair unat_le_value4)
    ultimately show ?thesis using 3
      by (simp add: tag_len6 copy_offset_def copy_length_def copy_header_size_def)
  qed
qed

lemma Decompress_run:
  "snappy_varint src 0 0 0 = Some (n, c) \<Longrightarrow> n \<noteq> 0 \<Longrightarrow> unat n \<le> dstLen \<Longrightarrow> c < length src \<Longrightarrow>
   Decompress (Some d) dstLen src =
     (case lz77 src (lz_init c d n) of None \<Rightarrow> None
      | Some st \<Rightarrow> Some (if bytes_left st \<noteq> 0 then 0 else unat n, Some (dstBytes st)))"
  by (auto simp: Decompress_def)

lemma Decompress_nonzero_prefix:
  "Decompress (Some d) dstLen src = Some (r, d') \<Longrightarrow> r \<noteq> 0 \<Longrightarrow>
   \<exists>n c. snappy_varint src 0 0 0 = Some (n, c) \<and> n \<noteq> 0 \<and> unat n \<le> dstLen \<and> c < length src"
  by (auto simp: Decompress_def split: if_splits option.splits)

text \<open>
  Claim C1. Whenever the element loop of \<open>Decompress\<close> is entered at a copy element
  (a tag whose low two bits are not 00) whose offset bytes do not all lie in the source
  buffer, whose offset is 0 or larger than \<open>dst_pos\<close> (so every copy at
  \<open>dst_pos = 0\<close>), or whose length exceeds \<open>bytes_left\<close>, the function returns 0.
\<close>

theorem Decompress_bad_copy:
  assumes "snappy_varint src 0 0 0 = Some (n, c)" and "n \<noteq> 0" and "unat n \<le> dstLen"
    and "c < length src"
    and reach: "lz_reach src (lz_init c d n) st"
    and tag: "unat (src ! lz_cur st) mod 4 \<noteq> 0"
    and bad: "length src < lz_cur st + 1 + copy_header_size (unat (src ! lz_cur st)) \<or>
              copy_offset src (lz_cur st + 1) (unat (src ! lz_cur st)) = 0 \<or>
              unat (dst_pos st) < copy_offset src (lz_cur st + 1) (unat (src ! lz_cur st)) \<or>
              unat (bytes_left st) < copy_length (unat (src ! lz_cur st))"
  shows "map_option fst (Decompress (Some d) dstLen src) = Some 0"
proof -
  let ?t = "src ! lz_cur st"
  have left: "bytes_left st \<noteq> 0"
    using lz_reach_left [OF reach] assms(2) by (simp add: lz_init_def)
  have tag3: "(ucast ?t :: 32 word) AND 3 \<noteq> 0"
    using tag tag_and3 [of ?t] by (auto simp: unat_eq_0)
  have "\<exists>st'. lz_element src st = Abort st'"
  proof (cases "copy_header src (lz_cur st + 1) (ucast ?t)")
    case None
    with tag3 show ?thesis by (simp add: lz_element_def Let_def)
  next
    case (Some r)
    obtain offset blen c2 where r: "r = (offset, blen, c2)" by (cases r) auto
    from Some have "\<not> length src < lz_cur st + 1 + copy_header_size (unat ?t)"
      using copy_header_None_iff [OF tag, of src "lz_cur st + 1"] by simp
    moreover from Some r copy_header_Some [OF _ tag]
    have "unat offset = copy_offset src (lz_cur st + 1) (unat ?t)"
      and "unat blen = copy_length (unat ?t)" by blast+
    ultimately have "unat offset = 0 \<or> unat (dst_pos st) < unat offset \<or> unat (bytes_left st) < unat blen"
      using bad by simp
    then have "\<not> (1 \<le> offset \<and> offset \<le> dst_pos st) \<or> bytes_left st < blen"
      by (auto simp: word_le_nat_alt word_less_nat_alt)
    then have "dst_pos st \<le> offset - 1 \<or> bytes_left st < blen"
      using offset_guard [of "dst_pos st" offset] by simp
    with tag3 Some r show ?thesis by (auto simp: lz_element_def Let_def)
  qed
  then obtain st' where ab: "lz_element src st = Abort st'" by blast
  then have "lz77 src st = Some st'" by (subst lz77.simps) simp
  then have "lz77 src (lz_init c d n) = Some st'" using lz77_reach [OF reach] by simp
  moreover have "bytes_left st' \<noteq> 0" using lz_element_Step_left [OF ab] left by simp
  ultimately show ?thesis
    using Decompress_run [OF assms(1-4), of d] by simp
qed

theorem Decompress_bad_copy_witness:
  "map_option fst (Decompress (Some [0, 0]) 2 [2, 0, 65, 5, 0]) = Some 0 \<and>
   map_option fst (Decompress (Some [0, 0]) 2 [2, 0, 65, 6, 1]) = Some 0"
proof -
  let ?st = "\<lparr>lz_cur = 3, dstBytes = [65, 0], dst_pos = 1, bytes_left = 1\<rparr>"
  have a: "map_option fst (Decompress (Some [0, 0]) 2 [2, 0, 65, 5, 0]) = Some 0"
  proof -
    let ?src = "[2, 0, 65, 5, 0] :: byte list"
    have p: "snappy_varint ?src 0 0 0 = Some (2, 1)" by code_simp
    have el: "lz_element ?src (lz_init 1 [0, 0] 2) = Step ?st" by code_simp
    have reach: "lz_reach ?src (lz_init 1 [0, 0] 2) ?st"
      by (rule lz_reach_step [OF lz_reach_start el]) simp_all
    have tag: "unat (?src ! lz_cur ?st) mod 4 \<noteq> 0" by simp
    have bad: "length ?src < lz_cur ?st + 1 + copy_header_size (unat (?src ! lz_cur ?st)) \<or>
              copy_offset ?src (lz_cur ?st + 1) (unat (?src ! lz_cur ?st)) = 0 \<or>
              unat (dst_pos ?st) < copy_offset ?src (lz_cur ?st + 1) (unat (?src ! lz_cur ?st)) \<or>
              unat (bytes_left ?st) < copy_length (unat (?src ! lz_cur ?st))"
      by (simp add: copy_offset_def)
    show ?thesis
      by (rule Decompress_bad_copy [OF p _ _ _ reach tag bad]) simp_all
  qed
  have b: "map_option fst (Decompress (Some [0, 0]) 2 [2, 0, 65, 6, 1]) = Some 0"
  proof -
    let ?src = "[2, 0, 65, 6, 1] :: byte list"
    have p: "snappy_varint ?src 0 0 0 = Some (2, 1)" by code_simp
    have el: "lz_element ?src (lz_init 1 [0, 0] 2) = Step ?st" by code_simp
    have reach: "lz_reach ?src (lz_init 1 [0, 0] 2) ?st"
      by (rule lz_reach_step [OF lz_reach_start el]) simp_all
    have tag: "unat (?src ! lz_cur ?st) mod 4 \<noteq> 0" by simp
    have bad: "length ?src < lz_cur ?st + 1 + copy_header_size (unat (?src ! lz_cur ?st)) \<or>
              copy_offset ?src (lz_cur ?st + 1) (unat (?src ! lz_cur ?st)) = 0 \<or>
              unat (dst_pos ?st) < copy_offset ?src (lz_cur ?st + 1) (unat (?src ! lz_cur ?st)) \<or>
              unat (bytes_left ?st) < copy_length (unat (?src ! lz_cur ?st))"
      by (simp add: copy_header_size_def)
    show ?thesis
      by (rule Decompress_bad_copy [OF p _ _ _ reach tag bad]) simp_all
  qed
  from a b show ?thesis by simp
qed

text \<open>
  Claim C2, as stated, fails: with the source \<open>01 00 41 ff\<close> the decoder returns 1
  although the cursor stops at index 3 and the byte \<open>ff\<close> is never read.
\<close>

theorem Decompress_trailing_bytes_counterexample:
  "Decompress (Some [0]) 1 [1, 0, 65, 255] = Some (1, Some [65])
   \<and> map_option lz_cur (lz77 [1, 0, 65, 255] (lz_init 1 [0] 1)) = Some 3
   \<and> 3 < length [1, 0, 65, 255 :: byte]"
  by code_simp

text \<open>
  Claim C2, amended. A nonzero result of \<open>Decompress\<close> (into a buffer of the declared
  capacity) is the size the length prefix declares, and it is returned only when a
  completed element has brought \<open>bytes_left\<close> to 0 and \<open>dst_pos\<close> to the declared
  size; bytes of the source behind that element are not looked at.
\<close>

theorem Decompress_nonzero:
  assumes "Decompress (Some d) dstLen src = Some (r, d')" and "r \<noteq> 0" and "dstLen \<le> length d"
  shows "\<exists>n c sp st. snappy_varint src 0 0 0 = Some (n, c) \<and> r = unat n \<and>
           lz_reach src (lz_init c d n) sp \<and> lz_element src sp = Step st \<and>
           bytes_left st = 0 \<and> dst_pos st = n \<and> d' = Some (dstBytes st)"
proof -
  from Decompress_nonzero_prefix [OF assms(1,2)] obtain n c where
    p: "snappy_varint src 0 0 0 = Some (n, c)" "n \<noteq> 0" "unat n \<le> dstLen" "c < length src"
    by blast
  have inv: "lz_inv n (lz_init c d n)" using p(3) assms(3) by (simp add: lz_inv_def lz_init_def)
  from lz77_safe [OF inv, of src] obtain st where
    st: "lz77 src (lz_init c d n) = Some st" "lz_inv n st" by blast
  from assms(1,2) st(1) have res: "bytes_left st = 0" "r = unat n" "d' = Some (dstBytes st)"
    using Decompress_run [OF p, of d] by (auto split: if_splits)
  from st(2) res(1) have "unat (dst_pos st) = unat n" by (simp add: lz_inv_def)
  then have pos: "dst_pos st = n" by (simp add: word_unat_eq_iff)
  from lz77_complete [OF st(1) _ res(1)] p(2) obtain sp where
    "lz_reach src (lz_init c d n) sp" "lz_element src sp = Step st"
    by (auto simp: lz_init_def)
  with p(1) res pos show ?thesis by blast
qed

theorem Decompress_nonzero_witness:
  "\<exists>n c sp st. snappy_varint [1, 0, 65, 255] 0 0 0 = Some (n, c) \<and> (1 :: nat) = unat n \<and>
           lz_reach [1, 0, 65, 255] (lz_init c [0] n) sp \<and> lz_element [1, 0, 65, 255] sp = Step st \<and>
           bytes_left st = 0 \<and> dst_pos st = n \<and> Some [65] = Some (dstBytes st)"
proof -
  have d: "Decompress (Some [0]) 1 [1, 0, 65, 255] = Some (1, Some [65])" by code_simp
  show ?thesis
    by (rule Decompress_nonzero [OF d]) simp_all
qed




text \<open>
  Claim C10. When the length prefix passes the initial check with declared size \<open>n\<close>,
  decoding into any destination buffer that holds at least \<open>n\<close> bytes performs no
  store outside the buffer (for a buffer of exactly \<open>n\<close> bytes: every store index is
  below \<open>n\<close>), leaves every byte at index \<open>n\<close> or above as it was, and returns
  either 0 or \<open>n\<close>.
\<close>

theorem Decompress_within_declared_size:
  assumes "snappy_varint src 0 0 0 = Some (n, c)" and "n \<noteq> 0" and "unat n \<le> dstLen"
    and "c < length src" and "unat n \<le> length d"
  shows "\<exists>r d'. Decompress (Some d) dstLen src = Some (r, Some d') \<and> length d' = length d \<and>
           (\<forall>i. unat n \<le> i \<longrightarrow> d' ! i = d ! i) \<and> (r = 0 \<or> r = unat n)"
proof -
  have inv: "lz_inv n (lz_init c d n)" using assms(5) by (simp add: lz_inv_def lz_init_def)
  from lz77_safe [OF inv, of src] obtain st where
    st: "lz77 src (lz_init c d n) = Some st" "length (dstBytes st) = length d"
      "\<forall>i. unat n \<le> i \<longrightarrow> dstBytes st ! i = d ! i" by (auto simp: lz_init_def)
  then show ?thesis
    using Decompress_run [OF assms(1-4), of d] by simp
qed

theorem Decompress_within_declared_size_witness:
  "\<exists>r d'. Decompress (Some [7, 7, 7, 7, 7, 7]) 6 [5, 0, 65, 1, 1, 9] = Some (r, Some d') \<and>
      length d' = length [7, 7, 7, 7, 7, 7 :: byte] \<and>
      (\<forall>i. unat (5 :: 32 word) \<le> i \<longrightarrow> d' ! i = [7, 7, 7, 7, 7, 7] ! i) \<and>
      (r = 0 \<or> r = unat (5 :: 32 word))"
proof -
  have p: "snappy_varint [5, 0, 65, 1, 1, 9] 0 0 0 = Some (5, 1)" by code_simp
  show ?thesis
    by (rule Decompress_within_declared_size [OF p]) simp_all
qed

section \<open>The Avro row decoder (avro_gpu.cu)\<close>

subsection \<open>Zig-zag varints\<close>

text \<open>
  \<open>avro_decode_zigzag_varint\<close> (lines 35--52). The input is the byte memory \<open>data\<close>
  with the two pointers \<open>cur\<close> and \<open>end\<close> as indices; the result is the decoded value
  (an \<open>int64_t\<close>, as its 64-bit pattern) and the advanced cursor. \<open>varint_loop\<close> is the
  inner \<open>while (cur < end)\<close> with the accumulator \<open>u\<close> and \<open>scale\<close>, both
  \<open>uint64_t\<close>.
\<close>

function varint_loop :: "byte list \<Rightarrow> nat \<Rightarrow> nat \<Rightarrow> 64 word \<Rightarrow> 64 word \<Rightarrow> 64 word \<times> nat" where
  "varint_loop data end cur u scale =
     (if cur < end then
        (let c = (ucast (data ! cur) :: 32 word);
             cur' = cur + 1;
             u' = u + ucast (c AND 0x7f) * scale;
             scale' = push_bit 7 scale
         in if c < 0x80 then (u', cur') else varint_loop data end cur' u' scale')
      else (u, cur))"
  by pat_completeness auto
termination
  by (relation "measure (\<lambda>(data, end, cur, u, scale). end - cur)") auto

definition avro_decode_zigzag_varint :: "byte list \<Rightarrow> nat \<Rightarrow> nat \<Rightarrow> 64 word \<times> nat" where
  "avro_decode_zigzag_varint data cur end =
     (let (u, cur') =
            (if cur < end then
               (let u0 = (ucast (data ! cur) :: 64 word); c1 = cur + 1
                in if u0 > 0x7f then varint_loop data end c1 (u0 AND 0x7f) 128 else (u0, c1))
             else (0, cur))
      in (drop_bit 1 u XOR - (u AND 1), cur'))"

declare varint_loop.simps [simp del]

subsection \<open>Schema, output buffers and the decoding of one field\<close>

text \<open>
  Modelled from the spec: the enumeration \<open>type_kind_e\<close> of the schema kinds (its header
  is not among the sources). The spec lists the kinds null, int, long, float, double,
  boolean, string, bytes, enum, array, record, union and says that a node at or above the
  "record" threshold contributes its full subtree: the leaf kinds and enum lie below
  \<open>type_record\<close>, and record, union and array at or above it. \<open>ge_record\<close> is the test
  \<open>kind >= type_record\<close> of the source.
\<close>

datatype type_kind_e =
    type_not_set | type_null | type_boolean | type_int | type_long | type_float | type_double
  | type_bytes | type_string | type_enum | type_record | type_union | type_array

primrec kind_code :: "type_kind_e \<Rightarrow> nat" where
  "kind_code type_not_set = 0"
| "kind_code type_null = 1"
| "kind_code type_boolean = 2"
| "kind_code type_int = 3"
| "kind_code type_long = 4"
| "kind_code type_float = 5"
| "kind_code type_double = 6"
| "kind_code type_bytes = 7"
| "kind_code type_string = 8"
| "kind_code type_enum = 9"
| "kind_code type_record = 10"
| "kind_code type_union = 11"
| "kind_code type_array = 12"

definition ge_record :: "type_kind_e \<Rightarrow> bool" where
  "ge_record k \<longleftrightarrow> kind_code type_record \<le> kind_code k"

text \<open>
  Modelled from the spec: the schema node \<open>schemadesc_s\<close> (declared in a header that is
  not among the sources): the kind, the count (children of a record, union or array; the
  dictionary base of an enum), and the output buffer of the field (\<open>None\<close> is a null
  \<open>dataptr\<close>).
\<close>

record schemadesc_s =
  kind :: type_kind_e
  count :: "32 word"
  dataptr :: "nat option"

text \<open>
  The output memory. A column buffer is addressed by its base pointer and the row index
  (\<open>size_t\<close>); \<open>valid\<close> holds the 32-bit words of the validity bitmasks, addressed by
  base pointer and word index; \<open>null_count\<close> is the counter \<open>schema_g[i].count\<close> that
  \<open>atomicAdd\<close> increments for a null at schema index \<open>i\<close>. (When the schema is not
  copied to shared memory the decoder reads \<open>schema_g\<close> itself, but it never reads the count
  of a node of kind null, so the counters are kept apart from the schema.) A string view is
  a pointer and a length; the pointer is null, points into the Avro data, or is taken from
  the dictionary.
\<close>

datatype char_ptr = Nullptr | Data_ptr nat | Ext_ptr nat

datatype cell =
    Int32 "32 word" | Int64 "64 word" | Float32 "32 word" | Float64 "64 word" | Bool8 byte
  | Str char_ptr "64 word"

record out_state =
  columns :: "nat \<Rightarrow> 64 word \<Rightarrow> cell option"
  valid :: "nat \<Rightarrow> 64 word \<Rightarrow> 32 word"
  null_count :: "32 word \<Rightarrow> 32 word"

text \<open>
  The two kinds of store of \<open>avro_decode_row\<close>, each under the guard
  \<open>dataptr != nullptr && row < max_rows\<close>: a value written to slot \<open>row\<close> of a column,
  and the clearing of the row's validity bit together with the increment of the null
  counter (lines 103--106).
\<close>

definition store :: "nat option \<Rightarrow> 64 word \<Rightarrow> 64 word \<Rightarrow> cell \<Rightarrow> out_state \<Rightarrow> out_state" where
  "store dp row max_rows v out =
     (case dp of
        Some p \<Rightarrow> if row < max_rows then out\<lparr>columns := (columns out)(p := (columns out p)(row \<mapsto> v))\<rparr>
                  else out
      | None \<Rightarrow> out)"

definition set_null :: "nat option \<Rightarrow> 32 word \<Rightarrow> 64 word \<Rightarrow> 64 word \<Rightarrow> out_state \<Rightarrow> out_state" where
  "set_null dp i row max_rows out =
     (case dp of
        Some p \<Rightarrow>
          if row < max_rows
          then out\<lparr>valid := (valid out)(p := (valid out p)
                         (drop_bit 5 row := valid out p (drop_bit 5 row)
                                              AND NOT (push_bit (unat (row AND 0x1f)) 1))),
                    null_count := (null_count out)(i := null_count out i + 1)\<rparr>
          else out
      | None \<Rightarrow> out)"

text \<open>
  Modelled from the spec: \<open>unaligned_load32\<close> and \<open>unaligned_load64\<close> (block_utils.cuh is
  not among the sources) read a fixed 4- or 8-byte little-endian value.
\<close>

definition unaligned_load32 :: "byte list \<Rightarrow> nat \<Rightarrow> 32 word" where
  "unaligned_load32 data p =
     ucast (data ! p) OR push_bit 8 (ucast (data ! (p + 1))) OR push_bit 16 (ucast (data ! (p + 2)))
       OR push_bit 24 (ucast (data ! (p + 3)))"

definition unaligned_load64 :: "byte list \<Rightarrow> nat \<Rightarrow> 64 word" where
  "unaligned_load64 data p =
     ucast (unaligned_load32 data p) OR push_bit 32 (ucast (unaligned_load32 data (p + 4)))"

text \<open>
  The skip loop \<open>while (skip > 0 && i < schema_len)\<close> (lines 90--94 and 199--203);
  \<open>skip\<close> is an \<open>int\<close>, compared as a signed number.
\<close>

function skip_nodes :: "schemadesc_s list \<Rightarrow> 32 word \<Rightarrow> 32 word \<Rightarrow> 32 word \<Rightarrow> 32 word" where
  "skip_nodes schema schema_len i skip =
     (if 0 <s skip \<and> i < schema_len
      then skip_nodes schema schema_len (i + 1)
             ((if ge_record (kind (schema ! unat i)) then skip + count (schema ! unat i) else skip) - 1)
      else i)"
  by pat_completeness auto
termination
proof (relation "measure (\<lambda>(schema, schema_len, i, skip). unat schema_len - unat i)")
  fix schema :: "schemadesc_s list" and schema_len i skip :: "32 word"
  assume "0 <s skip \<and> i < schema_len"
  then have lt: "unat i < unat schema_len" by (simp add: word_less_nat_alt)
  moreover have "unat schema_len < 2 ^ 32" using unsigned_less [of schema_len, where 'a = nat] by simp
  ultimately have "unat (i + 1) = unat i + 1" by (simp add: unat_add_lem [THEN iffD1])
  with lt show "((schema, schema_len, i + 1,
           (if ge_record (kind (schema ! unat i)) then skip + count (schema ! unat i) else skip) - 1),
          schema, schema_len, i, skip)
         \<in> measure (\<lambda>(schema, schema_len, i, skip). unat schema_len - unat i)"
    by simp
qed simp

declare skip_nodes.simps [simp del]

text \<open>
  The variables of \<open>avro_decode_row\<close> that live across the iterations of its loop, and
  the two ways an iteration ends.
\<close>

record row_state =
  row_i :: "32 word"
  row_cur :: nat
  array_start :: "32 word"
  array_repeat_count :: "32 word"
  array_children :: "32 word"
  row_out :: out_state

datatype row_step = Break row_state | Next row_state

text \<open>
  The union branch (lines 84--98): \<open>Inl\<close> is a \<open>break\<close>, \<open>Inr\<close> carries the state at
  the selected member and \<open>skip_after\<close>.
\<close>

definition union_select ::
  "schemadesc_s list \<Rightarrow> 32 word \<Rightarrow> byte list \<Rightarrow> nat \<Rightarrow> row_state \<Rightarrow> (row_state + row_state \<times> 32 word)" where
  "union_select schema schema_len data end st =
     (if end \<le> row_cur st then Inl st
      else let skip = (drop_bit 1 (ucast (data ! row_cur st)) :: 32 word);
               skip_after = count (schema ! unat (row_i st)) - skip - 1;
               i1 = skip_nodes schema schema_len (row_i st + 1) skip;
               st1 = st\<lparr>row_i := i1, row_cur := row_cur st + 1\<rparr>
           in if schema_len \<le> i1 \<or> skip_after <s 0 then Inl st1 else Inr (st1, skip_after))"

text \<open>
  The array block count (lines 181--185): an \<open>int32_t\<close> taken from the varint; when it is
  negative, the byte size that follows is read and dropped, and the count is negated.
\<close>

definition read_block_count :: "byte list \<Rightarrow> nat \<Rightarrow> nat \<Rightarrow> 32 word \<times> nat" where
  "read_block_count data cur end =
     (let (v, cur') = avro_decode_zigzag_varint data cur end;
          array_block_count = (ucast v :: 32 word)
      in if array_block_count <s 0
         then (- array_block_count, snd (avro_decode_zigzag_varint data cur' end))
         else (array_block_count, cur'))"

text \<open>
  The \<open>switch (kind)\<close> (lines 101--193): the state after the field and the new value of
  \<open>skip\<close>.
\<close>

definition decode_field ::
  "schemadesc_s list \<Rightarrow> (nat \<times> 64 word) list \<Rightarrow> byte list \<Rightarrow> nat \<Rightarrow> 64 word \<Rightarrow> 64 word \<Rightarrow>
   type_kind_e \<Rightarrow> 32 word \<Rightarrow> row_state \<Rightarrow> row_state \<times> 32 word" where
  "decode_field schema global_dictionary data end row max_rows knd skip st =
     (let i = row_i st; cur = row_cur st; out = row_out st;
          dp = dataptr (schema ! unat i);
          wr = (dp \<noteq> None \<and> row < max_rows)
      in case knd of
           type_null \<Rightarrow> (st\<lparr>row_out := set_null dp i row max_rows out\<rparr>, skip)
         | type_int \<Rightarrow>
             (let (v, cur') = avro_decode_zigzag_varint data cur end
              in (st\<lparr>row_cur := cur', row_out := store dp row max_rows (Int32 (ucast v)) out\<rparr>, skip))
         | type_long \<Rightarrow>
             (let (v, cur') = avro_decode_zigzag_varint data cur end
              in (st\<lparr>row_cur := cur', row_out := store dp row max_rows (Int64 v) out\<rparr>, skip))
         | type_enum \<Rightarrow>
             (let (v, cur') = avro_decode_zigzag_varint data cur end;
                  idx = (ucast (count (schema ! unat i)) :: 64 word) + v;
                  (ptr, cnt) = (if unat idx < length global_dictionary
                                then (Ext_ptr (fst (global_dictionary ! unat idx)),
                                      snd (global_dictionary ! unat idx))
                                else (Nullptr, 0))
              in (st\<lparr>row_cur := cur', row_out := store dp row max_rows (Str ptr cnt) out\<rparr>, skip))
         | type_bytes \<Rightarrow>
             (let (v, cur') = avro_decode_zigzag_varint data cur end;
                  (ptr, cnt, cur'') = (if 0 \<le>s v \<and> cur' + unat v \<le> end
                                       then (Data_ptr cur', v, cur' + unat v)
                                       else (Nullptr, 0, cur'))
              in (st\<lparr>row_cur := cur'', row_out := store dp row max_rows (Str ptr cnt) out\<rparr>, skip))
         | type_string \<Rightarrow>
             (let (v, cur') = avro_decode_zigzag_varint data cur end;
                  (ptr, cnt, cur'') = (if 0 \<le>s v \<and> cur' + unat v \<le> end
                                       then (Data_ptr cur', v, cur' + unat v)
                                       else (Nullptr, 0, cur'))
              in (st\<lparr>row_cur := cur'', row_out := store dp row max_rows (Str ptr cnt) out\<rparr>, skip))
         | type_float \<Rightarrow>
             (if wr then
                (let (v, cur') = (if cur + 3 < end then (unaligned_load32 data cur, cur + 4) else (0, cur))
                 in (st\<lparr>row_cur := cur', row_out := store dp row max_rows (Float32 v) out\<rparr>, skip))
              else (st\<lparr>row_cur := cur + 4\<rparr>, skip))
         | type_double \<Rightarrow>
             (if wr then
                (let (v, cur') = (if cur + 7 < end then (unaligned_load64 data cur, cur + 8) else (0, cur))
                 in (st\<lparr>row_cur := cur', row_out := store dp row max_rows (Float64 v) out\<rparr>, skip))
              else (st\<lparr>row_cur := cur + 8\<rparr>, skip))
         | type_boolean \<Rightarrow>
             (let v = (if cur < end then data ! cur else 0)
              in (st\<lparr>row_cur := cur + 1,
                     row_out := store dp row max_rows (Bool8 (if v \<noteq> 0 then 1 else 0)) out\<rparr>, skip))
         | type_array \<Rightarrow>
             (let (array_block_count, cur') = read_block_count data cur end
              in (st\<lparr>row_cur := cur', array_start := i, array_repeat_count := array_block_count,
                     array_children := 1\<rparr>,
                  if array_block_count = 0 then skip + count (schema ! unat i) else skip))
         | _ \<Rightarrow> (st, skip))"

text \<open>
  The rest of the loop body (lines 194--212): the bookkeeping of \<open>array_children\<close>, the
  step to the next node, and the check whether a repetition of the array item is complete.
\<close>

definition finish_field :: "schemadesc_s list \<Rightarrow> 32 word \<Rightarrow> nat \<Rightarrow> 32 word \<Rightarrow> row_state \<Rightarrow> row_state" where
  "finish_field schema schema_len end skip st =
     (let i = row_i st;
          children = (if array_repeat_count st \<noteq> 0
                      then (if ge_record (kind (schema ! unat i))
                            then array_children st - 1 + count (schema ! unat i)
                            else array_children st - 1)
                      else array_children st);
          i' = skip_nodes schema schema_len (i + 1) skip
      in if array_repeat_count st \<noteq> 0 \<and> children \<le>s 0 \<and> row_cur st < end then
           (let rc = array_repeat_count st - 1
            in if rc = 0 then st\<lparr>row_i := array_start st, array_repeat_count := rc,
                                  array_children := children\<rparr>
               else st\<lparr>row_i := array_start st + 1, array_repeat_count := rc,
                        array_children := count (schema ! unat (array_start st))\<rparr>)
         else st\<lparr>row_i := i', array_children := children\<rparr>)"

definition row_body ::
  "schemadesc_s list \<Rightarrow> (nat \<times> 64 word) list \<Rightarrow> 32 word \<Rightarrow> 64 word \<Rightarrow> 64 word \<Rightarrow> byte list \<Rightarrow> nat \<Rightarrow>
   row_state \<Rightarrow> row_step" where
  "row_body schema global_dictionary schema_len row max_rows data end st =
     (if kind (schema ! unat (row_i st)) = type_union then
        (case union_select schema schema_len data end st of
           Inl st' \<Rightarrow> Break st'
         | Inr (st1, skip_after) \<Rightarrow>
             (let (st2, skip) = decode_field schema global_dictionary data end row max_rows
                                  (kind (schema ! unat (row_i st1))) skip_after st1
              in Next (finish_field schema schema_len end skip st2)))
      else
        (let (st2, skip) = decode_field schema global_dictionary data end row max_rows
                             (kind (schema ! unat (row_i st))) 0 st
         in Next (finish_field schema schema_len end skip st2)))"

subsection \<open>The loop of \<open>avro_decode_row\<close> terminates\<close>

text \<open>
  Every iteration decreases, lexicographically, the bytes left before \<open>end\<close>, the
  repeat count of the array, and the distance of \<open>i\<close> from \<open>schema_len\<close>.
\<close>

definition row_measure :: "32 word \<Rightarrow> nat \<Rightarrow> row_state \<Rightarrow> nat \<times> nat \<times> nat" where
  "row_measure schema_len end st =
     (end - row_cur st, unat (array_repeat_count st), unat schema_len - unat (row_i st))"

lemma unat_succ_lt: "(i :: 32 word) < n \<Longrightarrow> unat (i + 1) = unat i + 1"
proof -
  assume "i < n"
  then have "unat i < unat n" by (simp add: word_less_nat_alt)
  moreover have "unat n < 2 ^ 32" using unsigned_less [of n, where 'a = nat] by simp
  ultimately show ?thesis by (simp add: unat_add_lem [THEN iffD1])
qed

lemma skip_nodes_bounds:
  "unat i \<le> unat (skip_nodes schema schema_len i skip) \<and>
   unat (skip_nodes schema schema_len i skip) \<le> max (unat i) (unat schema_len)"
proof (induction schema schema_len i skip rule: skip_nodes.induct)
  case (1 schema schema_len i skip)
  show ?case
  proof (cases "0 <s skip \<and> i < schema_len")
    case True
    then have lt: "i < schema_len" by simp
    have s: "unat (i + 1) = unat i + 1" using lt by (rule unat_succ_lt)
    from lt have "unat i < unat schema_len" by (simp add: word_less_nat_alt)
    with "1.IH" [OF True] s True show ?thesis
      by (subst (1 2) skip_nodes.simps) (simp add: max_def split: if_splits)
  next
    case False
    then show ?thesis by (subst (1 2) skip_nodes.simps) auto
  qed
qed

lemma varint_loop_cur: "cur \<le> end \<Longrightarrow> cur \<le> snd (varint_loop data end cur u scale) \<and> snd (varint_loop data end cur u scale) \<le> end"
proof (induction data "end" cur u scale rule: varint_loop.induct)
  case (1 data e cur u scale)
  show ?case
  proof (cases "cur < e")
    case True
    show ?thesis
    proof (cases "(ucast (data ! cur) :: 32 word) < 0x80")
      case c: True
      with True show ?thesis by (subst (1 2) varint_loop.simps) (simp add: Let_def)
    next
      case c: False
      from "1.IH" [OF True refl refl refl refl c] True
      have "cur + 1 \<le> snd (varint_loop data e (cur + 1) (u + ucast ((ucast (data ! cur) :: 32 word) AND 0x7f) * scale) (push_bit 7 scale))
          \<and> snd (varint_loop data e (cur + 1) (u + ucast ((ucast (data ! cur) :: 32 word) AND 0x7f) * scale) (push_bit 7 scale)) \<le> e"
        by simp
      with True c show ?thesis by (subst (1 2) varint_loop.simps) (simp add: Let_def)
    qed
  next
    case False
    with "1.prems" show ?thesis by (subst (1 2) varint_loop.simps) simp
  qed
qed

lemma varint_loop_adv: "cur < end \<Longrightarrow> cur < snd (varint_loop data end cur u scale)"
proof -
  assume lt: "cur < end"
  show ?thesis
  proof (cases "(ucast (data ! cur) :: 32 word) < 0x80")
    case True
    with lt show ?thesis by (subst varint_loop.simps) (simp add: Let_def)
  next
    case False
    from lt have "cur + 1 \<le> end" by simp
    then have "cur + 1 \<le> snd (varint_loop data end (cur + 1)
        (u + ucast ((ucast (data ! cur) :: 32 word) AND 0x7f) * scale) (push_bit 7 scale))"
      using varint_loop_cur by blast
    with False lt show ?thesis
      by (subst varint_loop.simps) (simp add: Let_def)
  qed
qed

lemma avro_varint_cur:
  "cur \<le> snd (avro_decode_zigzag_varint data cur end) \<and>
   snd (avro_decode_zigzag_varint data cur end) \<le> max cur end"
proof (cases "cur < end")
  case True
  show ?thesis
  proof (cases "(ucast (data ! cur) :: 64 word) > 0x7f")
    case big: True
    obtain u c where r: "varint_loop data end (cur + 1) (ucast (data ! cur) AND 0x7f) 128 = (u, c)"
      by (cases "varint_loop data end (cur + 1) (ucast (data ! cur) AND 0x7f) 128") auto
    from True have "cur + 1 \<le> end" by simp
    from varint_loop_cur [OF this, of data "ucast (data ! cur) AND 0x7f" 128] r
    have "cur + 1 \<le> c \<and> c \<le> end" by simp
    with True big r show ?thesis by (simp add: avro_decode_zigzag_varint_def Let_def)
  next
    case False
    with True show ?thesis by (simp add: avro_decode_zigzag_varint_def Let_def)
  qed
next
  case False
  then show ?thesis by (simp add: avro_decode_zigzag_varint_def)
qed

lemma avro_varint_adv: "cur < end \<Longrightarrow> cur < snd (avro_decode_zigzag_varint data cur end)"
proof -
  assume lt: "cur < end"
  then have "cur + 1 \<le> end" by simp
  then have "cur + 1 \<le> snd (varint_loop data end (cur + 1) (ucast (data ! cur) AND 0x7f) 128)"
    using varint_loop_cur by blast
  with lt show ?thesis
    by (auto simp: avro_decode_zigzag_varint_def Let_def split: prod.splits)
qed

lemma avro_varint_mono: "avro_decode_zigzag_varint data cur end = (v, c) \<Longrightarrow> cur \<le> c"
  using avro_varint_cur [of cur data "end"] by simp

lemma avro_varint_le [simp]: "a \<le> cur \<Longrightarrow> a \<le> snd (avro_decode_zigzag_varint data cur end)"
  using avro_varint_cur [of cur data "end"] by simp

lemma avro_varint_less [simp]: "a < cur \<Longrightarrow> a < snd (avro_decode_zigzag_varint data cur end)"
proof -
  assume "a < cur"
  moreover have "cur \<le> snd (avro_decode_zigzag_varint data cur end)" by simp
  ultimately show ?thesis by (rule less_le_trans)
qed

lemma avro_varint_empty: "end \<le> cur \<Longrightarrow> avro_decode_zigzag_varint data cur end = (0, cur)"
  by (simp add: avro_decode_zigzag_varint_def)

lemma read_block_count_mono: "read_block_count data cur end = (n, c) \<Longrightarrow> cur \<le> c"
  by (auto simp: read_block_count_def Let_def split: prod.splits if_splits dest!: avro_varint_mono)

lemma read_block_count_adv: "cur < end \<Longrightarrow> cur < snd (read_block_count data cur end)"
  using avro_varint_adv [of cur "end" data]
  by (auto simp: read_block_count_def Let_def split: prod.splits if_splits)

lemma read_block_count_empty: "end \<le> cur \<Longrightarrow> read_block_count data cur end = (0, cur)"
  by (simp add: read_block_count_def avro_varint_empty)

lemma decode_field_i:
  "decode_field schema gd data end row max_rows knd skip st = (st2, skip2) \<Longrightarrow> row_i st2 = row_i st"
  by (cases knd) (auto simp: decode_field_def Let_def split: prod.splits if_splits)

lemma decode_field_cur:
  "decode_field schema gd data end row max_rows knd skip st = (st2, skip2) \<Longrightarrow> row_cur st \<le> row_cur st2"
  by (cases knd)
     (auto simp: decode_field_def Let_def split: prod.splits if_splits
           dest!: avro_varint_mono read_block_count_mono)

lemma decode_field_repeat:
  "decode_field schema gd data end row max_rows knd skip st = (st2, skip2) \<Longrightarrow> knd \<noteq> type_array \<Longrightarrow>
   array_repeat_count st2 = array_repeat_count st \<and> array_start st2 = array_start st \<and>
   array_children st2 = array_children st"
  by (cases knd) (auto simp: decode_field_def Let_def split: prod.splits if_splits)

lemma decode_field_array_adv:
  "decode_field schema gd data end row max_rows type_array skip st = (st2, skip2) \<Longrightarrow>
   row_cur st < end \<Longrightarrow> row_cur st < row_cur st2"
  using read_block_count_adv [of "row_cur st" "end" data]
  by (auto simp: decode_field_def Let_def split: prod.splits if_splits)

lemma decode_field_array_end:
  "decode_field schema gd data end row max_rows type_array skip st = (st2, skip2) \<Longrightarrow>
   end \<le> row_cur st \<Longrightarrow> array_repeat_count st2 = 0 \<and> row_cur st2 = row_cur st"
  by (auto simp: decode_field_def Let_def read_block_count_empty split: prod.splits if_splits)

lemma finish_field_cur: "row_cur (finish_field schema schema_len end skip st) = row_cur st"
  by (simp add: finish_field_def Let_def)


lemma finish_field_progress:
  "(array_repeat_count st \<noteq> 0 \<and> row_cur st < end \<and>
      unat (array_repeat_count (finish_field schema schema_len end skip st)) < unat (array_repeat_count st))
   \<or> (array_repeat_count (finish_field schema schema_len end skip st) = array_repeat_count st \<and>
       row_i (finish_field schema schema_len end skip st) = skip_nodes schema schema_len (row_i st + 1) skip)"
proof (cases "array_repeat_count st = 0")
  case True
  then show ?thesis by (simp add: finish_field_def Let_def)
next
  case False
  then have "unat (array_repeat_count st - 1) < unat (array_repeat_count st)"
    by (simp add: unat_minus_one unat_gt_0)
  with False show ?thesis
    by (auto simp: finish_field_def Let_def)
qed

lemma finish_field_measure:
  assumes i: "row_i st < schema_len"
  shows "(array_repeat_count st \<noteq> 0 \<and> row_cur st < end \<and>
      unat (array_repeat_count (finish_field schema schema_len end skip st)) < unat (array_repeat_count st))
   \<or> (array_repeat_count (finish_field schema schema_len end skip st) = array_repeat_count st \<and>
       unat schema_len - unat (row_i (finish_field schema schema_len end skip st))
         < unat schema_len - unat (row_i st))"
proof -
  have s: "unat (row_i st + 1) = unat (row_i st) + 1" using i by (rule unat_succ_lt)
  have lt: "unat (row_i st) < unat schema_len" using i by (simp add: word_less_nat_alt)
  have "unat (row_i st + 1) \<le> unat (skip_nodes schema schema_len (row_i st + 1) skip)"
    using skip_nodes_bounds by blast
  with s lt have "unat schema_len - unat (skip_nodes schema schema_len (row_i st + 1) skip)
      < unat schema_len - unat (row_i st)" by arith
  with finish_field_progress [of st "end" schema schema_len skip] show ?thesis by auto
qed

lemma union_select_Inr:
  "union_select schema schema_len data end st = Inr (st1, skip_after) \<Longrightarrow>
   row_cur st < end \<and> row_cur st1 = row_cur st + 1 \<and> row_i st1 < schema_len \<and>
   array_repeat_count st1 = array_repeat_count st \<and> row_out st1 = row_out st"
  by (auto simp: union_select_def Let_def split: if_splits)


lemma row_body_decreases:
  assumes i: "row_i st < schema_len"
    and nx: "row_body schema gd schema_len row max_rows data end st = Next st'"
  shows "(row_measure schema_len end st', row_measure schema_len end st)
           \<in> less_than <*lex*> less_than <*lex*> less_than"
proof (cases "kind (schema ! unat (row_i st)) = type_union")
  case True
  with nx obtain st1 skip_after st2 skip where
    u: "union_select schema schema_len data end st = Inr (st1, skip_after)"
    and d: "decode_field schema gd data end row max_rows (kind (schema ! unat (row_i st1))) skip_after st1
              = (st2, skip)"
    and f: "st' = finish_field schema schema_len end skip st2"
    by (auto simp: row_body_def Let_def split: sum.splits prod.splits)
  from union_select_Inr [OF u] have "row_cur st < end" "row_cur st1 = row_cur st + 1" by simp_all
  moreover from decode_field_cur [OF d] have "row_cur st1 \<le> row_cur st2" .
  ultimately have "end - row_cur st' < end - row_cur st"
    using f by (simp add: finish_field_cur)
  then show ?thesis by (simp add: row_measure_def)
next
  case False
  with nx obtain st2 skip where
    d: "decode_field schema gd data end row max_rows (kind (schema ! unat (row_i st))) 0 st = (st2, skip)"
    and f: "st' = finish_field schema schema_len end skip st2"
    by (auto simp: row_body_def Let_def split: prod.splits)
  have i2: "row_i st2 = row_i st" using decode_field_i [OF d] .
  have c2: "row_cur st \<le> row_cur st2" using decode_field_cur [OF d] .
  have c': "row_cur st' = row_cur st2" using f by (simp add: finish_field_cur)
  note fm = finish_field_measure [of st2 schema_len "end" schema skip, folded f, unfolded i2, OF i]
  show ?thesis
  proof (cases "kind (schema ! unat (row_i st)) = type_array")
    case arr: True
    show ?thesis
    proof (cases "row_cur st < end")
      case True
      from decode_field_array_adv [OF d [unfolded arr] True] have "row_cur st < row_cur st2" .
      with True c' have "end - row_cur st' < end - row_cur st" by arith
      then show ?thesis by (simp add: row_measure_def)
    next
      case False
      then have "end \<le> row_cur st" by simp
      from decode_field_array_end [OF d [unfolded arr] this]
      have r0: "array_repeat_count st2 = 0" and ceq: "row_cur st2 = row_cur st" by simp_all
      from fm r0 have "array_repeat_count st' = 0"
        and "unat schema_len - unat (row_i st') < unat schema_len - unat (row_i st)" by auto
      with c' ceq show ?thesis by (auto simp: row_measure_def unat_gt_0)
    qed
  next
    case False
    from decode_field_repeat [OF d False] have req: "array_repeat_count st2 = array_repeat_count st"
      by simp
    from fm req c' c2 show ?thesis
      by (auto simp: row_measure_def)
  qed
qed

function avro_row_loop ::
  "schemadesc_s list \<Rightarrow> (nat \<times> 64 word) list \<Rightarrow> 32 word \<Rightarrow> 64 word \<Rightarrow> 64 word \<Rightarrow> byte list \<Rightarrow> nat \<Rightarrow>
   row_state \<Rightarrow> row_state" where
  "avro_row_loop schema global_dictionary schema_len row max_rows data end st =
     (if row_i st < schema_len then
        (case row_body schema global_dictionary schema_len row max_rows data end st of
           Break st' \<Rightarrow> st'
         | Next st' \<Rightarrow> avro_row_loop schema global_dictionary schema_len row max_rows data end st')
      else st)"
  by pat_completeness auto
termination
proof (relation "inv_image (less_than <*lex*> less_than <*lex*> less_than)
         (\<lambda>(schema, gd, schema_len, row, max_rows, data, end, st). row_measure schema_len end st)")
  show "wf (inv_image (less_than <*lex*> less_than <*lex*> less_than)
         (\<lambda>(schema, gd, schema_len, row, max_rows, data, end, st). row_measure schema_len end st))"
    by (intro wf_inv_image wf_lex_prod wf_less_than)
next
  fix schema gd schema_len row max_rows data "end" st st'
  assume "row_i st < schema_len"
    and "row_body schema gd schema_len row max_rows data end st = Next st'"
  then show "((schema, gd, schema_len, row, max_rows, data, end, st'),
              (schema, gd, schema_len, row, max_rows, data, end, st))
         \<in> inv_image (less_than <*lex*> less_than <*lex*> less_than)
         (\<lambda>(schema, gd, schema_len, row, max_rows, data, end, st). row_measure schema_len end st)"
    using row_body_decreases by simp
qed

declare avro_row_loop.simps [simp del]

text \<open>
  \<open>avro_decode_row\<close>: the loop from \<open>i = 0\<close>; the result is the returned cursor and the
  output memory.
\<close>

definition row_init :: "nat \<Rightarrow> out_state \<Rightarrow> row_state" where
  "row_init cur out =
     \<lparr>row_i = 0, row_cur = cur, array_start = 0, array_repeat_count = 0, array_children = 0,
      row_out = out\<rparr>"

definition avro_decode_row ::
  "schemadesc_s list \<Rightarrow> (nat \<times> 64 word) list \<Rightarrow> 32 word \<Rightarrow> 64 word \<Rightarrow> 64 word \<Rightarrow> byte list \<Rightarrow> nat \<Rightarrow> nat \<Rightarrow>
   out_state \<Rightarrow> nat \<times> out_state" where
  "avro_decode_row schema global_dictionary schema_len row max_rows data cur end out =
     (let st = avro_row_loop schema global_dictionary schema_len row max_rows data end
                 (row_init cur out)
      in (row_cur st, row_out st))"

subsection \<open>The kernel \<open>gpuDecodeAvroColumnData\<close>, one data block\<close>











subsection \<open>Notions used by the properties\<close>




text \<open>
  Modelled from the spec: the subtrees of the flattened schema. The schema is the
  pre-order list of a type tree; a node at or above the "record" threshold contributes its
  subtree, that is, it stands for itself and for \<open>count\<close> more subtrees that follow it
  (its children, as the skip loop of the source counts them), and any other node is a
  subtree of its own. \<open>subtree_end schema n i c = Some j\<close>: the \<open>c\<close> subtrees that
  start at node \<open>i\<close> are the nodes from \<open>i\<close> up to \<open>j\<close>, all among the first \<open>n\<close>
  nodes. \<open>node_children\<close> is the number of subtrees a node adds.
\<close>

function subtree_end :: "schemadesc_s list \<Rightarrow> nat \<Rightarrow> nat \<Rightarrow> nat \<Rightarrow> nat option" where
  "subtree_end schema n i c =
     (if c = 0 then Some i
      else if n \<le> i then None
      else subtree_end schema n (i + 1)
             (c - 1 + (if ge_record (kind (schema ! i)) then unat (count (schema ! i)) else 0)))"
  by pat_completeness auto
termination
  by (relation "measure (\<lambda>(schema, n, i, c). n - i)") auto

declare subtree_end.simps [simp del]









text \<open>
  Concrete inputs for the examples: an output memory in which nothing has been written,
  the schema of an array of ints, of an array of records with an int and a long field, and
  of an array of arrays of ints.
\<close>

definition empty_out :: out_state where
  "empty_out = \<lparr>columns = (\<lambda>p r. None), valid = (\<lambda>p w. - 1), null_count = (\<lambda>i. 0)\<rparr>"




subsection \<open>Properties of the varint decoder\<close>

lemma varint_loop_cong:
  "(\<And>i. cur \<le> i \<Longrightarrow> i < end \<Longrightarrow> data ! i = data' ! i) \<Longrightarrow>
   varint_loop data end cur u scale = varint_loop data' end cur u scale"
proof (induction data "end" cur u scale rule: varint_loop.induct)
  case (1 data e cur u scale)
  show ?case
  proof (cases "cur < e")
    case True
    then have eq: "data ! cur = data' ! cur" using "1.prems" by simp
    show ?thesis
    proof (cases "(ucast (data ! cur) :: 32 word) < 0x80")
      case c: True
      with True eq show ?thesis
        by (subst varint_loop.simps, subst (2) varint_loop.simps) (simp add: Let_def)
    next
      case c: False
      have "varint_loop data e (cur + 1) (u + ucast ((ucast (data ! cur) :: 32 word) AND 0x7f) * scale) (push_bit 7 scale)
          = varint_loop data' e (cur + 1) (u + ucast ((ucast (data ! cur) :: 32 word) AND 0x7f) * scale) (push_bit 7 scale)"
        using "1.IH" [OF True refl refl refl refl c] "1.prems" by simp
      with True c eq show ?thesis
        by (subst varint_loop.simps, subst (2) varint_loop.simps) (simp add: Let_def)
    qed
  next
    case False
    then show ?thesis by (subst varint_loop.simps, subst (2) varint_loop.simps) simp
  qed
qed

lemma avro_varint_cong:
  assumes eq: "\<forall>i. cur \<le> i \<and> i < end \<longrightarrow> data ! i = data' ! i"
  shows "avro_decode_zigzag_varint data cur end = avro_decode_zigzag_varint data' cur end"
proof (cases "cur < end")
  case True
  then have "data ! cur = data' ! cur" using eq by simp
  moreover have "varint_loop data end (cur + 1) u s = varint_loop data' end (cur + 1) u s" for u s
    using eq by (intro varint_loop_cong) simp
  ultimately show ?thesis by (simp add: avro_decode_zigzag_varint_def Let_def)
next
  case False
  then show ?thesis by (simp add: avro_decode_zigzag_varint_def)
qed

text \<open>
  Claim C9. \<open>avro_decode_zigzag_varint\<close> is a total function (its loop consumes one byte
  per iteration, which is its termination measure). Its result depends only on the bytes
  at indices from \<open>cur\<close> up to, but not including, \<open>end\<close>: changing any other byte of
  memory changes nothing, so no byte at or beyond \<open>end\<close> is read. The returned cursor
  never passes \<open>end\<close>, and a call with \<open>cur >= end\<close> returns 0 and leaves the cursor
  where it was.
\<close>

theorem avro_decode_zigzag_varint_bounds:
  "((\<forall>i. cur \<le> i \<and> i < end \<longrightarrow> data ! i = data' ! i) \<longrightarrow>
      avro_decode_zigzag_varint data cur end = avro_decode_zigzag_varint data' cur end)
   \<and> cur \<le> snd (avro_decode_zigzag_varint data cur end)
   \<and> snd (avro_decode_zigzag_varint data cur end) \<le> max cur end
   \<and> (end \<le> cur \<longrightarrow> avro_decode_zigzag_varint data cur end = (0, cur))"
  using avro_varint_cong [of cur "end" data data'] avro_varint_cur [of cur data "end"]
    avro_varint_empty [of "end" cur data]
  by blast

theorem avro_decode_zigzag_varint_bounds_witness:
  "avro_decode_zigzag_varint [0x80, 0x01, 0x55] 0 2 = avro_decode_zigzag_varint [0x80, 0x01, 0xaa] 0 2
   \<and> snd (avro_decode_zigzag_varint [0x80, 0x01, 0x55] 0 2) \<le> 2
   \<and> avro_decode_zigzag_varint [0x80, 0x01, 0x55] 2 2 = (0, 2)"
proof -
  have "\<forall>i. 0 \<le> i \<and> i < 2 \<longrightarrow> [0x80, 0x01, 0x55 :: byte] ! i = [0x80, 0x01, 0xaa] ! i"
    by (simp add: nth_Cons' less_Suc_eq numeral_2_eq_2)
  then show ?thesis
    using avro_decode_zigzag_varint_bounds [of 0 2 "[0x80, 0x01, 0x55]" "[0x80, 0x01, 0xaa]"]
      avro_decode_zigzag_varint_bounds [of 2 2 "[0x80, 0x01, 0x55]" "[0x80, 0x01, 0x55]"]
    by auto
qed

subsection \<open>Stores are guarded by \<open>row < max_rows\<close>\<close>

































subsection \<open>Floats and doubles\<close>

text \<open>
  Claim C6 does not hold of the code: with a float column that is written
  (\<open>dataptr\<close> not null, \<open>row < max_rows\<close>) and only 3 bytes of input left, the value 0 is
  stored and the cursor stays where it was, while the branch for a row that is not written
  advances it by 4; a double behaves the same way, with 0 against 8.
\<close>

theorem float_truncated_cursor:
  "fst (avro_decode_row [\<lparr>kind = type_float, count = 0, dataptr = Some 0\<rparr>] [] 1 0 1 [1, 2, 3] 0 3 empty_out) = 0
   \<and> fst (avro_decode_row [\<lparr>kind = type_float, count = 0, dataptr = Some 0\<rparr>] [] 1 1 1 [1, 2, 3] 0 3 empty_out) = 4
   \<and> fst (avro_decode_row [\<lparr>kind = type_double, count = 0, dataptr = Some 0\<rparr>] [] 1 0 1 [1, 2, 3] 0 3 empty_out) = 0
   \<and> fst (avro_decode_row [\<lparr>kind = type_double, count = 0, dataptr = Some 0\<rparr>] [] 1 1 1 [1, 2, 3] 0 3 empty_out) = 8"
  by code_simp

subsection \<open>Arrays\<close>

lemma skip_nodes_0 [simp]: "skip_nodes schema schema_len i 0 = i"
  by (subst skip_nodes.simps) simp



lemma sless_0_1 [simp]: "(0 :: 32 word) <s 1"
  by (simp add: word_sless_alt)

lemma sle_1_0 [simp]: "\<not> (1 :: 32 word) \<le>s 0"
  by (simp add: word_sle_eq)





lemma subtree_end_0 [simp]: "subtree_end schema n i 0 = Some i"
  by (subst subtree_end.simps) simp


































section \<open>The gzip container (uncomp.cpp)\<close>

subsection \<open>ParseGZArchive\<close>

text \<open>
  Modelled from the spec: the flag masks \<open>GZIPHeaderFlag\<close> (their header is not among the
  sources). The spec says only that bits of the flag byte select the presence of the extra
  field, the name, the comment and the header CRC, so the four masks are a parameter of the
  parser, and everything proved below holds for every choice of them.
\<close>

record GZIPHeaderFlag =
  fhcrc :: byte
  fextra :: byte
  fname :: byte
  fcomment :: byte

text \<open>
  \<open>gz_archive_s\<close>, the result of the parser. Pointers into the buffer are offsets from its
  start, a null pointer is \<open>None\<close>; \<open>gz_zero\<close> is the structure after the \<open>memset\<close>.
\<close>

record gz_archive_s =
  gz_fhdr :: "nat option"
  gz_hcrc16 :: "16 word"
  gz_xlen :: "16 word"
  gz_fxtra :: "nat option"
  gz_fname :: "nat option"
  gz_fcomment :: "nat option"
  gz_comp_data :: "nat option"
  gz_comp_len :: nat
  gz_crc32 :: "32 word"
  gz_isize :: "32 word"

definition gz_zero :: gz_archive_s where
  "gz_zero = \<lparr>gz_fhdr = None, gz_hcrc16 = 0, gz_xlen = 0, gz_fxtra = None, gz_fname = None,
              gz_fcomment = None, gz_comp_data = None, gz_comp_len = 0, gz_crc32 = 0, gz_isize = 0\<rparr>"

text \<open>
  The loop \<open>do { if (l >= len) return false; c = raw[l]; l++; } while (c != 0)\<close> that
  measures a zero-terminated string (lines 155--159 and 167--171): \<open>None\<close> is the
  \<open>return false\<close>, \<open>Some l\<close> the length with the terminator.
\<close>

function scan_zero :: "byte list \<Rightarrow> nat \<Rightarrow> nat \<Rightarrow> nat \<Rightarrow> nat option" where
  "scan_zero raw pos len l =
     (if len \<le> l then None
      else if raw ! (pos + l) \<noteq> 0 then scan_zero raw pos len (l + 1)
      else Some (l + 1))"
  by pat_completeness auto
termination
  by (relation "measure (\<lambda>(raw, pos, len, l). len - l)") auto

declare scan_zero.simps [simp del]

text \<open>
  A 32-bit little-endian load, as the trailer is read (lines 183--184).
\<close>

definition load32 :: "byte list \<Rightarrow> nat \<Rightarrow> 32 word" where
  "load32 raw p =
     ucast (raw ! p) OR push_bit 8 (ucast (raw ! (p + 1))) OR push_bit 16 (ucast (raw ! (p + 2)))
       OR push_bit 24 (ucast (raw ! (p + 3)))"

text \<open>
  The parser, one definition for each optional field. The state is the result structure
  with the advancing pair \<open>raw\<close>, \<open>len\<close> of the source (the offset of \<open>raw\<close> in the buffer and
  the bytes left); \<open>Inl\<close> is a \<open>return false\<close> with the structure as it is then.
  \<open>ParseGZArchive\<close> returns the boolean and the structure behind \<open>dst\<close>
  (\<open>None\<close> for a null \<open>dst\<close>). \<open>sizeof(gz_file_header_s)\<close> is 10: the magic at offsets
  0 and 1, the method at 2, the flags at 3.
\<close>

type_synonym gz_cursor = "gz_archive_s \<times> nat \<times> nat"

definition gz_extra :: "GZIPHeaderFlag \<Rightarrow> byte list \<Rightarrow> byte \<Rightarrow> gz_cursor \<Rightarrow> gz_archive_s + gz_cursor" where
  "gz_extra fl raw flags = (\<lambda>(dst, pos, len).
     if flags AND fextra fl \<noteq> 0 then
       (if len < 2 then Inl dst
        else let xlen = load16 raw pos; pos' = pos + 2; len' = len - 2
             in if len' < unat xlen then Inl dst
                else Inr (dst\<lparr>gz_xlen := ucast xlen, gz_fxtra := Some pos'\<rparr>,
                          pos' + unat xlen, len' - unat xlen))
     else Inr (dst, pos, len))"

definition gz_name :: "GZIPHeaderFlag \<Rightarrow> byte list \<Rightarrow> byte \<Rightarrow> gz_cursor \<Rightarrow> gz_archive_s + gz_cursor" where
  "gz_name fl raw flags = (\<lambda>(dst, pos, len).
     if flags AND fname fl \<noteq> 0 then
       (case scan_zero raw pos len 0 of
          None \<Rightarrow> Inl dst
        | Some l \<Rightarrow> Inr (dst\<lparr>gz_fname := Some pos\<rparr>, pos + l, len - l))
     else Inr (dst, pos, len))"

definition gz_comment :: "GZIPHeaderFlag \<Rightarrow> byte list \<Rightarrow> byte \<Rightarrow> gz_cursor \<Rightarrow> gz_archive_s + gz_cursor" where
  "gz_comment fl raw flags = (\<lambda>(dst, pos, len).
     if flags AND fcomment fl \<noteq> 0 then
       (case scan_zero raw pos len 0 of
          None \<Rightarrow> Inl dst
        | Some l \<Rightarrow> Inr (dst\<lparr>gz_fcomment := Some pos\<rparr>, pos + l, len - l))
     else Inr (dst, pos, len))"

definition gz_hcrc :: "GZIPHeaderFlag \<Rightarrow> byte list \<Rightarrow> byte \<Rightarrow> gz_cursor \<Rightarrow> gz_archive_s + gz_cursor" where
  "gz_hcrc fl raw flags = (\<lambda>(dst, pos, len).
     if flags AND fhcrc fl \<noteq> 0 then
       (if len < 2 then Inl dst
        else Inr (dst\<lparr>gz_hcrc16 := ucast (load16 raw pos)\<rparr>, pos + 2, len - 2))
     else Inr (dst, pos, len))"

definition gz_trailer :: "byte list \<Rightarrow> byte \<Rightarrow> gz_cursor \<Rightarrow> bool \<times> gz_archive_s" where
  "gz_trailer raw comp_mthd = (\<lambda>(dst, pos, len).
     if len < 8 then (False, dst)
     else let len' = len - 8
          in (comp_mthd = 8 \<and> 0 < len',
              dst\<lparr>gz_crc32 := load32 raw (pos + len - 8), gz_isize := load32 raw (pos + len - 4),
                  gz_comp_data := Some pos, gz_comp_len := len'\<rparr>))"

definition gz_optional :: "GZIPHeaderFlag \<Rightarrow> byte list \<Rightarrow> byte \<Rightarrow> gz_cursor \<Rightarrow> gz_archive_s + gz_cursor" where
  "gz_optional fl raw flags c0 =
     (case gz_extra fl raw flags c0 of
        Inl d \<Rightarrow> Inl d
      | Inr c1 \<Rightarrow>
          (case gz_name fl raw flags c1 of
             Inl d \<Rightarrow> Inl d
           | Inr c2 \<Rightarrow>
               (case gz_comment fl raw flags c2 of
                  Inl d \<Rightarrow> Inl d
                | Inr c3 \<Rightarrow> gz_hcrc fl raw flags c3)))"

definition ParseGZArchive ::
  "GZIPHeaderFlag \<Rightarrow> gz_archive_s option \<Rightarrow> byte list \<Rightarrow> bool \<times> gz_archive_s option" where
  "ParseGZArchive fl dst raw =
     (case dst of
        None \<Rightarrow> (False, None)
      | Some _ \<Rightarrow>
          if length raw < 10 + 8 then (False, Some gz_zero)
          else if raw ! 0 \<noteq> 0x1f \<or> raw ! 1 \<noteq> 0x8b then (False, Some gz_zero)
          else
            (case gz_optional fl raw (raw ! 3) (gz_zero\<lparr>gz_fhdr := Some 0\<rparr>, 10, length raw - 10) of
               Inl d \<Rightarrow> (False, Some d)
             | Inr c4 \<Rightarrow> (let (ok, d) = gz_trailer raw (raw ! 2) c4 in (ok, Some d))))"

subsection \<open>What a successful parse means\<close>

text \<open>
  \<open>zstr raw p q\<close>: a zero-terminated string lies at \<open>p\<close> and the byte after its
  terminator is at \<open>q\<close>, inside the buffer or at its end.
\<close>

definition zstr :: "byte list \<Rightarrow> nat \<Rightarrow> nat \<Rightarrow> bool" where
  "zstr raw p q \<longleftrightarrow> p < q \<and> q \<le> length raw \<and> raw ! (q - 1) = 0 \<and> (\<forall>j \<in> {p..<q - 1}. raw ! j \<noteq> 0)"

lemma zstr_alt:
  "zstr raw p q \<longleftrightarrow> p < q \<and> q \<le> length raw \<and> raw ! (q - 1) = 0 \<and> (\<forall>j. p \<le> j \<and> j < q - 1 \<longrightarrow> raw ! j \<noteq> 0)"
  by (auto simp: zstr_def)

lemma scan_zero_iff:
  "scan_zero raw pos len l0 = Some l \<longleftrightarrow>
     l0 < l \<and> l \<le> len \<and> raw ! (pos + (l - 1)) = 0 \<and> (\<forall>j. l0 \<le> j \<and> j < l - 1 \<longrightarrow> raw ! (pos + j) \<noteq> 0)"
proof (induction raw pos len l0 rule: scan_zero.induct)
  case (1 raw pos len l0)
  show ?case
  proof (cases "len \<le> l0")
    case True
    then show ?thesis by (subst scan_zero.simps) auto
  next
    case False
    show ?thesis
    proof (cases "raw ! (pos + l0) \<noteq> 0")
      case nz: True
      have "scan_zero raw pos len l0 = scan_zero raw pos len (l0 + 1)"
        using False nz by (subst scan_zero.simps) simp
      also have "\<dots> = Some l \<longleftrightarrow>
         l0 + 1 < l \<and> l \<le> len \<and> raw ! (pos + (l - 1)) = 0 \<and>
         (\<forall>j. l0 + 1 \<le> j \<and> j < l - 1 \<longrightarrow> raw ! (pos + j) \<noteq> 0)"
        using "1.IH" [OF False nz] .
      also have "\<dots> \<longleftrightarrow> l0 < l \<and> l \<le> len \<and> raw ! (pos + (l - 1)) = 0 \<and>
         (\<forall>j. l0 \<le> j \<and> j < l - 1 \<longrightarrow> raw ! (pos + j) \<noteq> 0)"
      proof (intro iffI conjI; (elim conjE)?)
        assume a: "l0 + 1 < l" "\<forall>j. l0 + 1 \<le> j \<and> j < l - 1 \<longrightarrow> raw ! (pos + j) \<noteq> 0"
        show "l0 < l" using a(1) by simp
        show "\<forall>j. l0 \<le> j \<and> j < l - 1 \<longrightarrow> raw ! (pos + j) \<noteq> 0"
        proof (intro allI impI)
          fix j assume "l0 \<le> j \<and> j < l - 1"
          then show "raw ! (pos + j) \<noteq> 0" using a(2) nz by (cases "j = l0") auto
        qed
      next
        assume b: "l0 < l" "raw ! (pos + (l - 1)) = 0" "\<forall>j. l0 \<le> j \<and> j < l - 1 \<longrightarrow> raw ! (pos + j) \<noteq> 0"
        show "l0 + 1 < l"
        proof (rule ccontr)
          assume "\<not> l0 + 1 < l"
          with b(1) have "l - 1 = l0" by simp
          with b(2) nz show False by simp
        qed
        show "\<forall>j. l0 + 1 \<le> j \<and> j < l - 1 \<longrightarrow> raw ! (pos + j) \<noteq> 0" using b(3) by simp
      qed simp_all
      finally show ?thesis .
    next
      case z: False
      then have "scan_zero raw pos len l0 = Some (l0 + 1)"
        using False by (subst scan_zero.simps) simp
      moreover have "l = l0 + 1" if "l0 < l" "\<forall>j. l0 \<le> j \<and> j < l - 1 \<longrightarrow> raw ! (pos + j) \<noteq> 0"
      proof (rule ccontr)
        assume "l \<noteq> l0 + 1"
        with that(1) have "l0 \<le> l0 \<and> l0 < l - 1" by simp
        with that(2) z show False by blast
      qed
      ultimately show ?thesis using False z by auto
    qed
  qed
qed

lemma zstr_scan:
  assumes "pos + len = length raw"
  shows "scan_zero raw pos len 0 = Some l \<longleftrightarrow> zstr raw pos (pos + l)"
proof -
  have sh: "(\<forall>j. j < l - 1 \<longrightarrow> raw ! (pos + j) \<noteq> 0) \<longleftrightarrow> (\<forall>j. pos \<le> j \<and> j < pos + l - 1 \<longrightarrow> raw ! j \<noteq> 0)"
  proof
    assume a: "\<forall>j. j < l - 1 \<longrightarrow> raw ! (pos + j) \<noteq> 0"
    show "\<forall>j. pos \<le> j \<and> j < pos + l - 1 \<longrightarrow> raw ! j \<noteq> 0"
    proof (intro allI impI)
      fix j assume j: "pos \<le> j \<and> j < pos + l - 1"
      then have "j - pos < l - 1" by arith
      with a have "raw ! (pos + (j - pos)) \<noteq> 0" by blast
      with j show "raw ! j \<noteq> 0" by simp
    qed
  next
    assume b: "\<forall>j. pos \<le> j \<and> j < pos + l - 1 \<longrightarrow> raw ! j \<noteq> 0"
    show "\<forall>j. j < l - 1 \<longrightarrow> raw ! (pos + j) \<noteq> 0"
    proof (intro allI impI)
      fix j assume "j < l - 1"
      then have "pos \<le> pos + j \<and> pos + j < pos + l - 1" by arith
      with b show "raw ! (pos + j) \<noteq> 0" by blast
    qed
  qed
  have "scan_zero raw pos len 0 = Some l \<longleftrightarrow>
      0 < l \<and> l \<le> len \<and> raw ! (pos + (l - 1)) = 0 \<and> (\<forall>j. j < l - 1 \<longrightarrow> raw ! (pos + j) \<noteq> 0)"
    by (simp add: scan_zero_iff)
  also have "\<dots> \<longleftrightarrow> zstr raw pos (pos + l)"
    unfolding zstr_alt sh using assms
    by (cases l) auto
  finally show ?thesis .
qed

text \<open>
  The layout of the optional fields, in the order extra field, name, comment, header CRC:
  \<open>p1\<close>, \<open>p2\<close>, \<open>p3\<close> and \<open>p4\<close> are the offsets behind each of them (the offset before it,
  when its flag is clear), each field within the buffer. \<open>gz_fields_dst\<close> is the structure
  that belongs to a layout: the payload starts at \<open>p4\<close> and ends 8 bytes before the end of
  the buffer, and the trailer is the little-endian value of the last 8 bytes, 4 for the
  CRC32 and 4 for the size.
\<close>

definition gz_fields_at :: "GZIPHeaderFlag \<Rightarrow> byte list \<Rightarrow> nat \<Rightarrow> nat \<Rightarrow> nat \<Rightarrow> nat \<Rightarrow> bool" where
  "gz_fields_at fl raw p1 p2 p3 p4 \<longleftrightarrow>
     (if raw ! 3 AND fextra fl \<noteq> 0 then p1 = 12 + unat (load16 raw 10) else p1 = 10) \<and>
     p1 \<le> length raw \<and>
     (if raw ! 3 AND fname fl \<noteq> 0 then zstr raw p1 p2 else p2 = p1) \<and>
     (if raw ! 3 AND fcomment fl \<noteq> 0 then zstr raw p2 p3 else p3 = p2) \<and>
     (if raw ! 3 AND fhcrc fl \<noteq> 0 then p4 = p3 + 2 else p4 = p3) \<and>
     p4 \<le> length raw"

definition gz_fields_dst :: "GZIPHeaderFlag \<Rightarrow> byte list \<Rightarrow> nat \<Rightarrow> nat \<Rightarrow> nat \<Rightarrow> nat \<Rightarrow> gz_archive_s" where
  "gz_fields_dst fl raw p1 p2 p3 p4 =
     \<lparr>gz_fhdr = Some 0,
      gz_hcrc16 = (if raw ! 3 AND fhcrc fl \<noteq> 0 then ucast (load16 raw p3) else 0),
      gz_xlen = (if raw ! 3 AND fextra fl \<noteq> 0 then ucast (load16 raw 10) else 0),
      gz_fxtra = (if raw ! 3 AND fextra fl \<noteq> 0 then Some 12 else None),
      gz_fname = (if raw ! 3 AND fname fl \<noteq> 0 then Some p1 else None),
      gz_fcomment = (if raw ! 3 AND fcomment fl \<noteq> 0 then Some p2 else None),
      gz_comp_data = Some p4,
      gz_comp_len = length raw - 8 - p4,
      gz_crc32 = of_nat (le_value (take 4 (drop (length raw - 8) raw))),
      gz_isize = of_nat (le_value (take 4 (drop (length raw - 4) raw)))\<rparr>"

lemma gz_extra_iff:
  "pos + len = length raw \<Longrightarrow>
   gz_extra fl raw f (d, pos, len) = Inr (d', pos', len') \<longleftrightarrow>
     pos' + len' = length raw \<and>
     (if f AND fextra fl \<noteq> 0
      then pos' = pos + 2 + unat (load16 raw pos) \<and> d' = d\<lparr>gz_xlen := ucast (load16 raw pos), gz_fxtra := Some (pos + 2)\<rparr>
      else pos' = pos \<and> d' = d)"
  by (auto simp: gz_extra_def Let_def)

lemma gz_name_iff:
  "pos + len = length raw \<Longrightarrow>
   gz_name fl raw f (d, pos, len) = Inr (d', pos', len') \<longleftrightarrow>
     pos' + len' = length raw \<and>
     (if f AND fname fl \<noteq> 0 then zstr raw pos pos' \<and> d' = d\<lparr>gz_fname := Some pos\<rparr>
      else pos' = pos \<and> d' = d)"
proof (cases "f AND fname fl \<noteq> 0")
  case False
  assume "pos + len = length raw"
  with False show ?thesis by (auto simp: gz_name_def)
next
  case True
  assume inv: "pos + len = length raw"
  show ?thesis
  proof
    assume "gz_name fl raw f (d, pos, len) = Inr (d', pos', len')"
    with True obtain l where l: "scan_zero raw pos len 0 = Some l" "d' = d\<lparr>gz_fname := Some pos\<rparr>"
      "pos' = pos + l" "len' = len - l"
      by (auto simp: gz_name_def split: option.splits)
    from l(1) have "l \<le> len" by (simp add: scan_zero_iff)
    with l inv True zstr_scan [OF inv, of l] show "pos' + len' = length raw \<and>
     (if f AND fname fl \<noteq> 0 then zstr raw pos pos' \<and> d' = d\<lparr>gz_fname := Some pos\<rparr>
      else pos' = pos \<and> d' = d)" by auto
  next
    assume r: "pos' + len' = length raw \<and>
     (if f AND fname fl \<noteq> 0 then zstr raw pos pos' \<and> d' = d\<lparr>gz_fname := Some pos\<rparr>
      else pos' = pos \<and> d' = d)"
    with True have z: "zstr raw pos pos'" and d': "d' = d\<lparr>gz_fname := Some pos\<rparr>" by auto
    from z have "pos < pos'" by (simp add: zstr_def)
    then have "pos' = pos + (pos' - pos)" by simp
    with z zstr_scan [OF inv, of "pos' - pos"] have "scan_zero raw pos len 0 = Some (pos' - pos)" by simp
    with True d' r inv \<open>pos < pos'\<close> show "gz_name fl raw f (d, pos, len) = Inr (d', pos', len')"
      by (auto simp: gz_name_def)
  qed
qed

lemma gz_comment_iff:
  "pos + len = length raw \<Longrightarrow>
   gz_comment fl raw f (d, pos, len) = Inr (d', pos', len') \<longleftrightarrow>
     pos' + len' = length raw \<and>
     (if f AND fcomment fl \<noteq> 0 then zstr raw pos pos' \<and> d' = d\<lparr>gz_fcomment := Some pos\<rparr>
      else pos' = pos \<and> d' = d)"
proof (cases "f AND fcomment fl \<noteq> 0")
  case False
  assume "pos + len = length raw"
  with False show ?thesis by (auto simp: gz_comment_def)
next
  case True
  assume inv: "pos + len = length raw"
  show ?thesis
  proof
    assume "gz_comment fl raw f (d, pos, len) = Inr (d', pos', len')"
    with True obtain l where l: "scan_zero raw pos len 0 = Some l" "d' = d\<lparr>gz_fcomment := Some pos\<rparr>"
      "pos' = pos + l" "len' = len - l"
      by (auto simp: gz_comment_def split: option.splits)
    from l(1) have "l \<le> len" by (simp add: scan_zero_iff)
    with l inv True zstr_scan [OF inv, of l] show "pos' + len' = length raw \<and>
     (if f AND fcomment fl \<noteq> 0 then zstr raw pos pos' \<and> d' = d\<lparr>gz_fcomment := Some pos\<rparr>
      else pos' = pos \<and> d' = d)" by auto
  next
    assume r: "pos' + len' = length raw \<and>
     (if f AND fcomment fl \<noteq> 0 then zstr raw pos pos' \<and> d' = d\<lparr>gz_fcomment := Some pos\<rparr>
      else pos' = pos \<and> d' = d)"
    with True have z: "zstr raw pos pos'" and d': "d' = d\<lparr>gz_fcomment := Some pos\<rparr>" by auto
    from z have "pos < pos'" by (simp add: zstr_def)
    then have "pos' = pos + (pos' - pos)" by simp
    with z zstr_scan [OF inv, of "pos' - pos"] have "scan_zero raw pos len 0 = Some (pos' - pos)" by simp
    with True d' r inv \<open>pos < pos'\<close> show "gz_comment fl raw f (d, pos, len) = Inr (d', pos', len')"
      by (auto simp: gz_comment_def)
  qed
qed

lemma gz_hcrc_iff:
  "pos + len = length raw \<Longrightarrow>
   gz_hcrc fl raw f (d, pos, len) = Inr (d', pos', len') \<longleftrightarrow>
     pos' + len' = length raw \<and>
     (if f AND fhcrc fl \<noteq> 0
      then pos' = pos + 2 \<and> d' = d\<lparr>gz_hcrc16 := ucast (load16 raw pos)\<rparr>
      else pos' = pos \<and> d' = d)"
  by (auto simp: gz_hcrc_def Let_def)

lemma gz_chain:
  assumes len: "10 \<le> length raw"
  shows "gz_optional fl raw (raw ! 3) (gz_zero\<lparr>gz_fhdr := Some 0\<rparr>, 10, length raw - 10) = Inr (d4, p4, l4)
     \<longleftrightarrow> (\<exists>p1 p2 p3. gz_fields_at fl raw p1 p2 p3 p4 \<and> p4 + l4 = length raw \<and>
            d4 = (gz_fields_dst fl raw p1 p2 p3 p4)\<lparr>gz_comp_data := None, gz_comp_len := 0, gz_crc32 := 0, gz_isize := 0\<rparr>)"
  (is "?L \<longleftrightarrow> ?R")
proof
  assume L: ?L
  then obtain c1 where c1: "gz_extra fl raw (raw ! 3) (gz_zero\<lparr>gz_fhdr := Some 0\<rparr>, 10, length raw - 10) = Inr c1"
    by (cases "gz_extra fl raw (raw ! 3) (gz_zero\<lparr>gz_fhdr := Some 0\<rparr>, 10, length raw - 10)")
       (simp_all add: gz_optional_def)
  with L obtain c2 where c2: "gz_name fl raw (raw ! 3) c1 = Inr c2"
    by (cases "gz_name fl raw (raw ! 3) c1") (simp_all add: gz_optional_def)
  with L c1 obtain c3 where c3: "gz_comment fl raw (raw ! 3) c2 = Inr c3"
    by (cases "gz_comment fl raw (raw ! 3) c2") (simp_all add: gz_optional_def)
  with L c1 c2 have c4: "gz_hcrc fl raw (raw ! 3) c3 = Inr (d4, p4, l4)"
    by (simp add: gz_optional_def)
  obtain d1 p1 l1 where t1: "c1 = (d1, p1, l1)" by (cases c1) auto
  obtain d2 p2 l2 where t2: "c2 = (d2, p2, l2)" by (cases c2) auto
  obtain d3 p3 l3 where t3: "c3 = (d3, p3, l3)" by (cases c3) auto
  note s1 = c1 [unfolded t1] and s2 = c2 [unfolded t1 t2] and s3 = c3 [unfolded t2 t3]
    and s4 = c4 [unfolded t3]
  have inv0: "10 + (length raw - 10) = length raw" using len by simp
  note r1 = s1 [unfolded gz_extra_iff [OF inv0]]
  then have inv1: "p1 + l1 = length raw" by simp
  note r2 = s2 [unfolded gz_name_iff [OF inv1]]
  then have inv2: "p2 + l2 = length raw" by simp
  note r3 = s3 [unfolded gz_comment_iff [OF inv2]]
  then have inv3: "p3 + l3 = length raw" by simp
  note r4 = s4 [unfolded gz_hcrc_iff [OF inv3]]
  then have inv4: "p4 + l4 = length raw" by simp
  have "gz_fields_at fl raw p1 p2 p3 p4"
    using r1 r2 r3 r4 inv1 inv4 by (auto simp: gz_fields_at_def split: if_splits)
  moreover have "d4 = (gz_fields_dst fl raw p1 p2 p3 p4)\<lparr>gz_comp_data := None, gz_comp_len := 0, gz_crc32 := 0, gz_isize := 0\<rparr>"
    using r1 r2 r3 r4 by (auto simp: gz_fields_dst_def gz_zero_def split: if_splits)
  ultimately show ?R using inv4 by blast
next
  assume ?R
  then obtain p1 p2 p3 where f: "gz_fields_at fl raw p1 p2 p3 p4" and inv4: "p4 + l4 = length raw"
    and d4: "d4 = (gz_fields_dst fl raw p1 p2 p3 p4)\<lparr>gz_comp_data := None, gz_comp_len := 0, gz_crc32 := 0, gz_isize := 0\<rparr>"
    by blast
  have inv0: "10 + (length raw - 10) = length raw" using len by simp
  from f have b1: "p1 \<le> length raw" by (simp add: gz_fields_at_def)
  from f have b2: "p2 \<le> length raw" by (auto simp: gz_fields_at_def zstr_def split: if_splits)
  from f have b3: "p3 \<le> length raw" by (auto simp: gz_fields_at_def zstr_def split: if_splits)
  define d1 where "d1 = (if raw ! 3 AND fextra fl \<noteq> 0
      then gz_zero\<lparr>gz_fhdr := Some 0, gz_xlen := ucast (load16 raw 10), gz_fxtra := Some 12\<rparr>
      else gz_zero\<lparr>gz_fhdr := Some 0\<rparr>)"
  define d2 where "d2 = (if raw ! 3 AND fname fl \<noteq> 0 then d1\<lparr>gz_fname := Some p1\<rparr> else d1)"
  define d3 where "d3 = (if raw ! 3 AND fcomment fl \<noteq> 0 then d2\<lparr>gz_fcomment := Some p2\<rparr> else d2)"
  have inv1: "p1 + (length raw - p1) = length raw" using b1 by simp
  have inv2: "p2 + (length raw - p2) = length raw" using b2 by simp
  have inv3: "p3 + (length raw - p3) = length raw" using b3 by simp
  have s1: "gz_extra fl raw (raw ! 3) (gz_zero\<lparr>gz_fhdr := Some 0\<rparr>, 10, length raw - 10) = Inr (d1, p1, length raw - p1)"
    unfolding gz_extra_iff [OF inv0] using f b1 by (auto simp: gz_fields_at_def d1_def)
  have s2: "gz_name fl raw (raw ! 3) (d1, p1, length raw - p1) = Inr (d2, p2, length raw - p2)"
    unfolding gz_name_iff [OF inv1] using f b2 by (auto simp: gz_fields_at_def d2_def)
  have s3: "gz_comment fl raw (raw ! 3) (d2, p2, length raw - p2) = Inr (d3, p3, length raw - p3)"
    unfolding gz_comment_iff [OF inv2] using f b3 by (auto simp: gz_fields_at_def d3_def)
  have l4: "l4 = length raw - p4" using inv4 by simp
  have "d4 = (if raw ! 3 AND fhcrc fl \<noteq> 0 then d3\<lparr>gz_hcrc16 := ucast (load16 raw p3)\<rparr> else d3)"
    unfolding d4 by (simp add: gz_fields_dst_def d3_def d2_def d1_def gz_zero_def)
  then have s4: "gz_hcrc fl raw (raw ! 3) (d3, p3, length raw - p3) = Inr (d4, p4, l4)"
    unfolding gz_hcrc_iff [OF inv3] using f inv4 by (auto simp: gz_fields_at_def)
  from s1 s2 s3 s4 show ?L by (simp add: gz_optional_def)
qed

lemma take4_drop:
  "p + 4 \<le> length s \<Longrightarrow> take 4 (drop p s) = [s ! p, s ! (p + 1), s ! (p + 2), s ! (p + 3)]"
  by (rule nth_equalityI) (auto simp: nth_Cons' less_Suc_eq eval_nat_numeral)

lemma load32_le: "p + 4 \<le> length raw \<Longrightarrow> load32 raw p = of_nat (le_value (take 4 (drop p raw)))"
  by (simp only: take4_drop le4 [symmetric] load32_def)

lemma gz_trailer_final:
  assumes inv: "p4 + l4 = length raw"
    and d4: "d4 = (gz_fields_dst fl raw p1 p2 p3 p4)\<lparr>gz_comp_data := None, gz_comp_len := 0, gz_crc32 := 0, gz_isize := 0\<rparr>"
  shows "gz_trailer raw m (d4, p4, l4) =
      (if l4 < 8 then (False, d4) else (m = 8 \<and> p4 + 8 < length raw, gz_fields_dst fl raw p1 p2 p3 p4))"
proof (cases "l4 < 8")
  case True
  then show ?thesis by (simp add: gz_trailer_def)
next
  case False
  with inv have e: "p4 + l4 - 8 = length raw - 8" "p4 + l4 - 4 = length raw - 4" "l4 - 8 = length raw - 8 - p4"
    and c: "length raw - 8 + 4 \<le> length raw" "length raw - 4 + 4 \<le> length raw"
    and lt: "0 < l4 - 8 \<longleftrightarrow> p4 + 8 < length raw"
    by auto
  have "d4\<lparr>gz_crc32 := load32 raw (length raw - 8), gz_isize := load32 raw (length raw - 4),
           gz_comp_data := Some p4, gz_comp_len := length raw - 8 - p4\<rparr> = gz_fields_dst fl raw p1 p2 p3 p4"
    unfolding d4 load32_le [OF c(1)] load32_le [OF c(2)]
    by (simp add: gz_fields_dst_def)
  moreover have "8 + p4 < length raw \<longleftrightarrow> p4 + 8 < length raw" by arith
  ultimately show ?thesis using False
    by (simp add: gz_trailer_def Let_def e lt)
qed

text \<open>
  Claim C4. \<open>ParseGZArchive\<close> returns true exactly when the buffer has at least 18 bytes
  (the 10-byte header and the 8-byte trailer), starts with 0x1f 0x8b, declares method 8,
  has every optional field that its flag byte selects inside the buffer, in the order
  extra field (16-bit length prefix), name, comment (both zero-terminated), 16-bit header
  CRC, and has at least one byte between the last of them and the final 8 bytes. The
  structure returned then has the payload span from the end of the optional fields to
  8 bytes before the end of the buffer, and the little-endian CRC32 and size of the
  trailer.
\<close>

theorem ParseGZArchive_spec:
  "ParseGZArchive fl (Some d) raw = (True, r) \<longleftrightarrow>
     18 \<le> length raw \<and> raw ! 0 = 0x1f \<and> raw ! 1 = 0x8b \<and> raw ! 2 = 8 \<and>
     (\<exists>p1 p2 p3 p4. gz_fields_at fl raw p1 p2 p3 p4 \<and> p4 + 8 < length raw \<and>
        r = Some (gz_fields_dst fl raw p1 p2 p3 p4))"
  (is "?L \<longleftrightarrow> ?R")
proof (cases "18 \<le> length raw \<and> raw ! 0 = 0x1f \<and> raw ! 1 = 0x8b")
  case False
  then show ?thesis by (auto simp: ParseGZArchive_def)
next
  case True
  then have len: "10 \<le> length raw" by simp
  let ?c0 = "(gz_zero\<lparr>gz_fhdr := Some 0\<rparr>, 10, length raw - 10)"
  show ?thesis
  proof (cases "gz_optional fl raw (raw ! 3) ?c0")
    case (Inl a)
    then have "\<not> ?L" using True by (simp add: ParseGZArchive_def)
    moreover have "\<not> ?R"
    proof
      assume ?R
      then obtain p1 p2 p3 p4 where f: "gz_fields_at fl raw p1 p2 p3 p4" and p: "p4 + 8 < length raw" by blast
      then have "p4 + (length raw - p4) = length raw" by simp
      with f gz_chain [OF len, of fl "(gz_fields_dst fl raw p1 p2 p3 p4)\<lparr>gz_comp_data := None, gz_comp_len := 0, gz_crc32 := 0, gz_isize := 0\<rparr>" p4 "length raw - p4"]
      have "gz_optional fl raw (raw ! 3) ?c0 = Inr ((gz_fields_dst fl raw p1 p2 p3 p4)\<lparr>gz_comp_data := None, gz_comp_len := 0, gz_crc32 := 0, gz_isize := 0\<rparr>, p4, length raw - p4)"
        by blast
      with Inl show False by simp
    qed
    ultimately show ?thesis by blast
  next
    case (Inr c4)
    obtain d4 p4 l4 where t: "c4 = (d4, p4, l4)" by (cases c4) auto
    from Inr [unfolded t gz_chain [OF len]] obtain p1 p2 p3 where
      f: "gz_fields_at fl raw p1 p2 p3 p4" and inv: "p4 + l4 = length raw"
      and d4: "d4 = (gz_fields_dst fl raw p1 p2 p3 p4)\<lparr>gz_comp_data := None, gz_comp_len := 0, gz_crc32 := 0, gz_isize := 0\<rparr>"
      by blast
    note tr = gz_trailer_final [OF inv d4, of "raw ! 2"]
    have P: "ParseGZArchive fl (Some d) raw =
        (if l4 < 8 then (False, Some d4)
         else (raw ! 2 = 8 \<and> p4 + 8 < length raw, Some (gz_fields_dst fl raw p1 p2 p3 p4)))"
      using True Inr t tr by (simp add: ParseGZArchive_def)
    have uniq: "q4 = p4 \<and> gz_fields_dst fl raw q1 q2 q3 q4 = gz_fields_dst fl raw p1 p2 p3 p4"
      if "gz_fields_at fl raw q1 q2 q3 q4" for q1 q2 q3 q4
    proof -
      from that have "q4 \<le> length raw" by (simp add: gz_fields_at_def)
      then have "q4 + (length raw - q4) = length raw" by simp
      with that gz_chain [OF len, of fl "(gz_fields_dst fl raw q1 q2 q3 q4)\<lparr>gz_comp_data := None, gz_comp_len := 0, gz_crc32 := 0, gz_isize := 0\<rparr>" q4 "length raw - q4"]
      have "gz_optional fl raw (raw ! 3) ?c0 = Inr ((gz_fields_dst fl raw q1 q2 q3 q4)\<lparr>gz_comp_data := None, gz_comp_len := 0, gz_crc32 := 0, gz_isize := 0\<rparr>, q4, length raw - q4)"
        by blast
      with Inr t d4 show ?thesis
        by (auto simp: gz_fields_dst_def)
    qed
    show ?thesis
    proof
      assume ?L
      with P have "\<not> l4 < 8" "raw ! 2 = 8" "p4 + 8 < length raw" "r = Some (gz_fields_dst fl raw p1 p2 p3 p4)"
        by (auto split: if_splits)
      with True f show ?R by blast
    next
      assume R: ?R
      then obtain q1 q2 q3 q4 where g: "gz_fields_at fl raw q1 q2 q3 q4" and q: "q4 + 8 < length raw"
        and r: "r = Some (gz_fields_dst fl raw q1 q2 q3 q4)" by blast
      from uniq [OF g] q r inv have "\<not> l4 < 8" "p4 + 8 < length raw" "r = Some (gz_fields_dst fl raw p1 p2 p3 p4)"
        by auto
      with P R show ?L by simp
    qed
  qed
qed

text \<open>
  An archive with all four optional fields, under the masks of RFC 1952 (header CRC 0x02,
  extra 0x04, name 0x08, comment 0x10): a 2-byte extra field, the name "a", the comment
  "bc", the header CRC 0x3412, 2 bytes of payload, CRC32 0x04030201 and size 5.
\<close>

definition rfc1952_flags :: GZIPHeaderFlag where
  "rfc1952_flags = \<lparr>fhcrc = 0x02, fextra = 0x04, fname = 0x08, fcomment = 0x10\<rparr>"

definition gz_example :: "byte list" where
  "gz_example = [0x1f, 0x8b, 8, 0x1e, 0,0,0,0, 0, 3,   2, 0, 0xaa, 0xbb,  0x61, 0,  0x62, 0x63, 0,  0x12, 0x34,  0x99, 0x98,   1,2,3,4, 5,0,0,0]"

lemma gz_example_name: "zstr gz_example 14 16"
  by code_simp

lemma gz_example_comment: "zstr gz_example 16 19"
  by code_simp

lemma gz_example_xlen: "unat (load16 gz_example 10) = 2"
  by (simp add: load16_def gz_example_def)

lemma gz_example_fields: "gz_fields_at rfc1952_flags gz_example 14 16 19 21"
  using gz_example_name gz_example_comment gz_example_xlen by (simp add: gz_fields_at_def rfc1952_flags_def) (simp add: gz_example_def)

lemma gz_example_dst:
  "gz_fields_dst rfc1952_flags gz_example 14 16 19 21 =
      \<lparr>gz_fhdr = Some 0, gz_hcrc16 = 0x3412, gz_xlen = 2, gz_fxtra = Some 12,
        gz_fname = Some 14, gz_fcomment = Some 16, gz_comp_data = Some 21, gz_comp_len = 2,
        gz_crc32 = 0x04030201, gz_isize = 5\<rparr>"
  by (simp add: gz_fields_dst_def rfc1952_flags_def gz_example_def load16_def)

lemma gz_example_hdr:
  "18 \<le> length gz_example \<and> gz_example ! 0 = 0x1f \<and> gz_example ! 1 = 0x8b \<and> gz_example ! 2 = 8
      \<and> 21 + 8 < length gz_example"
  by (simp add: gz_example_def)

theorem ParseGZArchive_spec_witness:
  "gz_fields_at rfc1952_flags gz_example 14 16 19 21 \<and>
   ParseGZArchive rfc1952_flags (Some gz_zero) gz_example =
     (True, Some \<lparr>gz_fhdr = Some 0, gz_hcrc16 = 0x3412, gz_xlen = 2, gz_fxtra = Some 12,
        gz_fname = Some 14, gz_fcomment = Some 16, gz_comp_data = Some 21, gz_comp_len = 2,
        gz_crc32 = 0x04030201, gz_isize = 5\<rparr>)"
proof -
  have "ParseGZArchive rfc1952_flags (Some gz_zero) gz_example =
      (True, Some (gz_fields_dst rfc1952_flags gz_example 14 16 19 21))"
    using ParseGZArchive_spec [of rfc1952_flags gz_zero gz_example
      "Some (gz_fields_dst rfc1952_flags gz_example 14 16 19 21)"] gz_example_fields gz_example_hdr
    by blast
  then show ?thesis using gz_example_fields by (simp add: gz_example_dst)
qed

section \<open>The zip container (uncomp.cpp)\<close>

subsection \<open>The headers\<close>

text \<open>
  The structures \<open>zip_eocd_s\<close>, \<open>zip_cdfh_s\<close> and \<open>zip_lfh_s\<close> are packed
  (\<open>#pragma pack(push, 1)\<close>) and read in place, so a field is a little-endian load at a
  fixed distance from the start of its header; a 16-bit field is held zero-extended. The
  end-of-central-directory record has 20 bytes, and the 16-bit length of the archive comment
  follows it (\<open>eocd + 1\<close>).
\<close>

definition eocd_sig :: "byte list \<Rightarrow> nat \<Rightarrow> 32 word" where
  "eocd_sig raw p = load32 raw p"

definition eocd_disk_id :: "byte list \<Rightarrow> nat \<Rightarrow> 32 word" where
  "eocd_disk_id raw p = load16 raw (p + 4)"

definition eocd_start_disk :: "byte list \<Rightarrow> nat \<Rightarrow> 32 word" where
  "eocd_start_disk raw p = load16 raw (p + 6)"

definition eocd_num_entries :: "byte list \<Rightarrow> nat \<Rightarrow> 32 word" where
  "eocd_num_entries raw p = load16 raw (p + 8)"

definition eocd_total_entries :: "byte list \<Rightarrow> nat \<Rightarrow> 32 word" where
  "eocd_total_entries raw p = load16 raw (p + 10)"

definition eocd_cdir_size :: "byte list \<Rightarrow> nat \<Rightarrow> 32 word" where
  "eocd_cdir_size raw p = load32 raw (p + 12)"

definition eocd_cdir_offset :: "byte list \<Rightarrow> nat \<Rightarrow> 32 word" where
  "eocd_cdir_offset raw p = load32 raw (p + 16)"

definition eocd_comment_len :: "byte list \<Rightarrow> nat \<Rightarrow> 32 word" where
  "eocd_comment_len raw p = load16 raw (p + 20)"

text \<open>
  The central directory file header, 46 bytes.
\<close>

definition cdfh_sig :: "byte list \<Rightarrow> nat \<Rightarrow> 32 word" where
  "cdfh_sig raw p = load32 raw p"

definition cdfh_comp_method :: "byte list \<Rightarrow> nat \<Rightarrow> 32 word" where
  "cdfh_comp_method raw p = load16 raw (p + 10)"

definition cdfh_comp_size :: "byte list \<Rightarrow> nat \<Rightarrow> 32 word" where
  "cdfh_comp_size raw p = load32 raw (p + 20)"

definition cdfh_uncomp_size :: "byte list \<Rightarrow> nat \<Rightarrow> 32 word" where
  "cdfh_uncomp_size raw p = load32 raw (p + 24)"

definition cdfh_fname_len :: "byte list \<Rightarrow> nat \<Rightarrow> 32 word" where
  "cdfh_fname_len raw p = load16 raw (p + 28)"

definition cdfh_extra_len :: "byte list \<Rightarrow> nat \<Rightarrow> 32 word" where
  "cdfh_extra_len raw p = load16 raw (p + 30)"

definition cdfh_comment_len :: "byte list \<Rightarrow> nat \<Rightarrow> 32 word" where
  "cdfh_comment_len raw p = load16 raw (p + 32)"

definition cdfh_hdr_ofs :: "byte list \<Rightarrow> nat \<Rightarrow> 32 word" where
  "cdfh_hdr_ofs raw p = load32 raw (p + 42)"

text \<open>
  The local file header, 30 bytes.
\<close>

definition lfh_sig :: "byte list \<Rightarrow> nat \<Rightarrow> 32 word" where
  "lfh_sig raw p = load32 raw p"

definition lfh_comp_method :: "byte list \<Rightarrow> nat \<Rightarrow> 32 word" where
  "lfh_comp_method raw p = load16 raw (p + 8)"

definition lfh_comp_size :: "byte list \<Rightarrow> nat \<Rightarrow> 32 word" where
  "lfh_comp_size raw p = load32 raw (p + 18)"

definition lfh_uncomp_size :: "byte list \<Rightarrow> nat \<Rightarrow> 32 word" where
  "lfh_uncomp_size raw p = load32 raw (p + 22)"

definition lfh_fname_len :: "byte list \<Rightarrow> nat \<Rightarrow> 32 word" where
  "lfh_fname_len raw p = load16 raw (p + 26)"

definition lfh_extra_len :: "byte list \<Rightarrow> nat \<Rightarrow> 32 word" where
  "lfh_extra_len raw p = load16 raw (p + 28)"

subsection \<open>OpenZipArchive\<close>

text \<open>
  \<open>zip_archive_s\<close> holds three pointers into the buffer, here offsets, \<open>None\<close> for null.
  \<open>eocd_candidate\<close> is the body of the backward scan (lines 198--213) at the position
  \<open>i\<close> (a \<open>ptrdiff_t\<close>): a record that passes the checks becomes \<open>dst->eocd\<close>, whether
  or not the central directory it points to starts with the signature 0x02014b50; only
  then is \<open>dst->cdfh\<close> set. The check \<open>cdir_offset < len\<close> leaves the 4-byte read of
  that signature partly outside the buffer when fewer than 4 bytes follow: that read is
  the result \<open>None\<close>. \<open>eocd_scan\<close> is the loop, which does not stop at a match; in its
  condition the sum \<open>i + sizeof(zip_eocd_s) + 2 + 0xffff\<close> is a \<open>size_t\<close>, equal to the
  integer sum for every \<open>i >= 0\<close>, and for \<open>i = -1\<close> the second conjunct ends the loop.
\<close>

record zip_archive_s =
  za_eocd :: "nat option"
  za_eocdl :: "nat option"
  za_cdfh :: "nat option"

definition za_zero :: zip_archive_s where
  "za_zero = \<lparr>za_eocd = None, za_eocdl = None, za_cdfh = None\<rparr>"

definition eocd_candidate :: "byte list \<Rightarrow> int \<Rightarrow> zip_archive_s \<Rightarrow> zip_archive_s option" where
  "eocd_candidate raw i dst =
     (let eocd = nat i in
      if eocd_sig raw eocd = 0x06054b50 \<and>
         eocd_disk_id raw eocd = eocd_start_disk raw eocd \<and>
         eocd_num_entries raw eocd = eocd_total_entries raw eocd \<and>
         46 * unat (eocd_num_entries raw eocd) \<le> unat (eocd_cdir_size raw eocd) \<and>
         unat (eocd_cdir_offset raw eocd) < length raw \<and>
         i + uint (eocd_comment_len raw eocd) \<le> int (length raw)
      then
        (let cdfh = unat (eocd_cdir_offset raw eocd);
             dst1 = dst\<lparr>za_eocd := Some eocd\<rparr>;
             dst2 = (if 20 \<le> i \<and> load32 raw (eocd - 20) = 0x07064b50
                     then dst1\<lparr>za_eocdl := Some (eocd - 20)\<rparr> else dst1)
         in if length raw < cdfh + 4 then None
            else Some (if cdfh_sig raw cdfh = 0x02014b50 then dst2\<lparr>za_cdfh := Some cdfh\<rparr> else dst2))
      else Some dst)"

function eocd_scan :: "byte list \<Rightarrow> int \<Rightarrow> zip_archive_s \<Rightarrow> zip_archive_s option" where
  "eocd_scan raw i dst =
     (if int (length raw) \<le> i + 20 + 2 + 0xffff \<and> 0 \<le> i then
        (case eocd_candidate raw i dst of
           None \<Rightarrow> None
         | Some dst' \<Rightarrow> eocd_scan raw (i - 1) dst')
      else Some dst)"
  by pat_completeness auto
termination
  by (relation "measure (\<lambda>(raw, i, dst). nat (i + 1))") auto

definition OpenZipArchive :: "byte list \<Rightarrow> (bool \<times> zip_archive_s) option" where
  "OpenZipArchive raw =
     (case (if 20 + 2 \<le> length raw then eocd_scan raw (int (length raw) - 20 - 2) za_zero
            else Some za_zero) of
        None \<Rightarrow> None
      | Some dst \<Rightarrow> Some (za_eocd dst \<noteq> None \<and> za_cdfh dst \<noteq> None, dst))"

declare eocd_scan.simps [simp del]

subsection \<open>The walk over the central directory\<close>

text \<open>
  The zip case of \<open>io_uncompress_single_h2d\<close> (lines 317--351). Its result is the triple
  \<open>comp_data\<close> (an offset into the buffer), \<open>comp_len\<close>, \<open>uncomp_len\<close> of the entry that is
  picked (\<open>Found\<close>), or nothing (\<open>NotFound\<close>: the three variables keep their initial
  values); \<open>Fault\<close> is a read outside the buffer.

  \<open>zip_entry\<close> is the part of the loop body that looks at one entry whose central header
  passed the check for a bad directory: \<open>Some\<close> ends the loop (the \<open>break\<close> after an entry
  is picked), \<open>None\<close> goes on to \<open>cdfh_ofs += cdfh_len\<close>. The field \<open>hdr_ofs\<close> ends at
  byte 46 of the central header and is read only for an entry with method 8 and nonzero
  sizes. The sums are \<open>size_t\<close> sums of values below \<open>2^32\<close> and do not wrap.
\<close>

datatype zip_pick = Fault | NotFound | Found nat nat nat

definition zip_entry :: "byte list \<Rightarrow> nat \<Rightarrow> zip_pick option" where
  "zip_entry raw cdfh =
     (if cdfh_comp_method raw cdfh = 8 \<and> 0 < cdfh_comp_size raw cdfh \<and> 0 < cdfh_uncomp_size raw cdfh
      then
        if length raw < cdfh + 46 then Some Fault
        else
          (let lfh_ofs = unat (cdfh_hdr_ofs raw cdfh) in
           if lfh_ofs + 30 \<le> length raw \<and> lfh_sig raw lfh_ofs = 0x04034b50 \<and>
              lfh_ofs + 30 + unat (lfh_fname_len raw lfh_ofs) + unat (lfh_extra_len raw lfh_ofs)
                \<le> length raw
           then
             if lfh_comp_method raw lfh_ofs = 8 \<and> 0 < lfh_comp_size raw lfh_ofs \<and>
                0 < lfh_uncomp_size raw lfh_ofs
             then
               (let file_start = lfh_ofs + 30 + unat (lfh_fname_len raw lfh_ofs)
                                   + unat (lfh_extra_len raw lfh_ofs);
                    file_end = file_start + unat (lfh_comp_size raw lfh_ofs)
                in if file_end \<le> length raw
                   then Some (Found file_start (unat (lfh_comp_size raw lfh_ofs))
                                (unat (lfh_uncomp_size raw lfh_ofs)))
                   else None)
             else None
           else None)
      else None)"

text \<open>
  The loop (lines 319--349), with the loop variables \<open>cdfh_ofs\<close> and \<open>i\<close>. The three
  length fields end at byte 34 of the central header and are read before anything is
  checked. \<open>cdfh_ofs\<close> grows only after \<open>cdfh_ofs + cdfh_len <= cdir_size\<close>, so it stays
  below \<open>2^32\<close> and the \<open>size_t\<close> sum is the sum of the natural numbers.
\<close>

definition cdfh_len :: "byte list \<Rightarrow> nat \<Rightarrow> nat" where
  "cdfh_len raw cdfh =
     46 + unat (cdfh_fname_len raw cdfh) + unat (cdfh_extra_len raw cdfh)
        + unat (cdfh_comment_len raw cdfh)"

function zip_cdir_loop :: "byte list \<Rightarrow> nat \<Rightarrow> nat \<Rightarrow> nat \<Rightarrow> nat \<Rightarrow> nat \<Rightarrow> zip_pick" where
  "zip_cdir_loop raw cdfh0 num_entries cdir_size cdfh_ofs i =
     (if i < num_entries then
        (let cdfh = cdfh0 + cdfh_ofs in
         if length raw < cdfh + 34 then Fault
         else if cdir_size < cdfh_ofs + cdfh_len raw cdfh \<or> cdfh_sig raw cdfh \<noteq> 0x02014b50
         then NotFound
         else
           (case zip_entry raw cdfh of
              Some r \<Rightarrow> r
            | None \<Rightarrow> zip_cdir_loop raw cdfh0 num_entries cdir_size
                        (cdfh_ofs + cdfh_len raw cdfh) (i + 1)))
      else NotFound)"
  by pat_completeness auto
termination
  by (relation "measure (\<lambda>(raw, c, n, cs, ofs, i). n - i)") auto

declare zip_cdir_loop.simps [simp del]

definition io_uncompress_zip :: "byte list \<Rightarrow> zip_pick" where
  "io_uncompress_zip raw =
     (case OpenZipArchive raw of
        None \<Rightarrow> Fault
      | Some (ok, za) \<Rightarrow>
          if ok then
            (case (za_eocd za, za_cdfh za) of
               (Some eocd, Some cdfh0) \<Rightarrow>
                 zip_cdir_loop raw cdfh0 (unat (eocd_num_entries raw eocd))
                   (unat (eocd_cdir_size raw eocd)) 0 0
             | _ \<Rightarrow> Fault)
          else NotFound)"

subsection \<open>The entry that is picked\<close>

text \<open>
  \<open>cdfh_nth raw cdfh0 k\<close> is the offset of the \<open>k\<close>-th central header from the first
  one, each header followed by its name, extra field and comment. \<open>cdfh_ok\<close>: the loop
  can read the header and does not take it for a bad directory.
\<close>

fun cdfh_nth :: "byte list \<Rightarrow> nat \<Rightarrow> nat \<Rightarrow> nat" where
  "cdfh_nth raw cdfh0 0 = 0"
| "cdfh_nth raw cdfh0 (Suc k) = cdfh_nth raw cdfh0 k + cdfh_len raw (cdfh0 + cdfh_nth raw cdfh0 k)"

definition cdfh_ok :: "byte list \<Rightarrow> nat \<Rightarrow> nat \<Rightarrow> nat \<Rightarrow> bool" where
  "cdfh_ok raw cdfh0 cdir_size ofs \<longleftrightarrow>
     cdfh0 + ofs + 34 \<le> length raw \<and>
     ofs + cdfh_len raw (cdfh0 + ofs) \<le> cdir_size \<and>
     cdfh_sig raw (cdfh0 + ofs) = 0x02014b50"

text \<open>
  What the loop asks of an entry. In the central header: method 8 and nonzero sizes. Of
  the local header: that it lies in the buffer with its name and extra field and carries the
  signature 0x04034b50; and also that it declares method 8 and nonzero sizes itself, and
  that the payload it declares ends in the buffer. An entry that fails one of these is
  skipped; the span that is returned for a valid one starts behind the local header, and
  both its sizes are those of the local header.
\<close>

definition central_deflate :: "byte list \<Rightarrow> nat \<Rightarrow> bool" where
  "central_deflate raw cdfh \<longleftrightarrow>
     cdfh_comp_method raw cdfh = 8 \<and> 0 < cdfh_comp_size raw cdfh \<and> 0 < cdfh_uncomp_size raw cdfh"

definition local_header_valid :: "byte list \<Rightarrow> nat \<Rightarrow> bool" where
  "local_header_valid raw lfh \<longleftrightarrow>
     lfh + 30 \<le> length raw \<and> lfh_sig raw lfh = 0x04034b50 \<and>
     lfh + 30 + unat (lfh_fname_len raw lfh) + unat (lfh_extra_len raw lfh) \<le> length raw"

definition file_start :: "byte list \<Rightarrow> nat \<Rightarrow> nat" where
  "file_start raw lfh = lfh + 30 + unat (lfh_fname_len raw lfh) + unat (lfh_extra_len raw lfh)"

definition local_deflate :: "byte list \<Rightarrow> nat \<Rightarrow> bool" where
  "local_deflate raw lfh \<longleftrightarrow>
     lfh_comp_method raw lfh = 8 \<and> 0 < lfh_comp_size raw lfh \<and> 0 < lfh_uncomp_size raw lfh \<and>
     file_start raw lfh + unat (lfh_comp_size raw lfh) \<le> length raw"

definition zip_valid_file :: "byte list \<Rightarrow> nat \<Rightarrow> bool" where
  "zip_valid_file raw cdfh \<longleftrightarrow>
     central_deflate raw cdfh \<and> cdfh + 46 \<le> length raw \<and>
     local_header_valid raw (unat (cdfh_hdr_ofs raw cdfh)) \<and>
     local_deflate raw (unat (cdfh_hdr_ofs raw cdfh))"

definition zip_skipped :: "byte list \<Rightarrow> nat \<Rightarrow> bool" where
  "zip_skipped raw cdfh \<longleftrightarrow>
     \<not> central_deflate raw cdfh \<or>
     (cdfh + 46 \<le> length raw \<and>
      \<not> (local_header_valid raw (unat (cdfh_hdr_ofs raw cdfh)) \<and>
         local_deflate raw (unat (cdfh_hdr_ofs raw cdfh))))"

definition zip_file_span :: "byte list \<Rightarrow> nat \<Rightarrow> zip_pick" where
  "zip_file_span raw cdfh =
     (let lfh = unat (cdfh_hdr_ofs raw cdfh)
      in Found (file_start raw lfh) (unat (lfh_comp_size raw lfh)) (unat (lfh_uncomp_size raw lfh)))"

definition zip_first_valid :: "byte list \<Rightarrow> nat \<Rightarrow> nat \<Rightarrow> nat \<Rightarrow> nat \<Rightarrow> bool" where
  "zip_first_valid raw cdfh0 num_entries cdir_size k \<longleftrightarrow>
     k < num_entries \<and>
     (\<forall>j \<in> {0..<Suc k}. cdfh_ok raw cdfh0 cdir_size (cdfh_nth raw cdfh0 j)) \<and>
     (\<forall>j \<in> {0..<k}. zip_skipped raw (cdfh0 + cdfh_nth raw cdfh0 j)) \<and>
     zip_valid_file raw (cdfh0 + cdfh_nth raw cdfh0 k)"

lemma zip_entry_None_iff: "zip_entry raw p = None \<longleftrightarrow> zip_skipped raw p"
  by (auto simp: zip_entry_def zip_skipped_def central_deflate_def local_header_valid_def
      local_deflate_def file_start_def Let_def)

lemma zip_entry_Found_iff:
  "zip_entry raw p = Some (Found a b d) \<longleftrightarrow> zip_valid_file raw p \<and> zip_file_span raw p = Found a b d"
  by (auto simp: zip_entry_def zip_valid_file_def zip_file_span_def central_deflate_def
      local_header_valid_def local_deflate_def file_start_def Let_def)

lemma zip_cdir_loop_step:
  assumes "i < n" "cdfh_ok raw cdfh0 cs ofs"
  shows "zip_cdir_loop raw cdfh0 n cs ofs i =
     (case zip_entry raw (cdfh0 + ofs) of
        Some r \<Rightarrow> r
      | None \<Rightarrow> zip_cdir_loop raw cdfh0 n cs (ofs + cdfh_len raw (cdfh0 + ofs)) (i + 1))"
  using assms by (subst zip_cdir_loop.simps) (simp add: cdfh_ok_def Let_def)

lemma zip_cdir_loop_not_ok:
  assumes "\<not> cdfh_ok raw cdfh0 cs ofs"
  shows "zip_cdir_loop raw cdfh0 n cs ofs i \<noteq> Found a b d"
  using assms by (subst zip_cdir_loop.simps) (auto simp: cdfh_ok_def Let_def)

lemma zip_cdir_loop_end:
  assumes "\<not> i < n"
  shows "zip_cdir_loop raw cdfh0 n cs ofs i = NotFound"
  using assms by (subst zip_cdir_loop.simps) simp

lemma zip_cdir_loop_skip:
  assumes "k \<le> n"
    and "\<forall>j<k. cdfh_ok raw cdfh0 cs (cdfh_nth raw cdfh0 j) \<and> zip_skipped raw (cdfh0 + cdfh_nth raw cdfh0 j)"
  shows "zip_cdir_loop raw cdfh0 n cs 0 0 = zip_cdir_loop raw cdfh0 n cs (cdfh_nth raw cdfh0 k) k"
  using assms
proof (induction k)
  case 0
  show ?case by simp
next
  case (Suc k)
  from Suc.prems have ok: "cdfh_ok raw cdfh0 cs (cdfh_nth raw cdfh0 k)"
    and sk: "zip_entry raw (cdfh0 + cdfh_nth raw cdfh0 k) = None"
    by (simp_all add: zip_entry_None_iff)
  from Suc.prems have "zip_cdir_loop raw cdfh0 n cs 0 0 = zip_cdir_loop raw cdfh0 n cs (cdfh_nth raw cdfh0 k) k"
    by (intro Suc.IH) auto
  also have "\<dots> = zip_cdir_loop raw cdfh0 n cs (cdfh_nth raw cdfh0 (Suc k)) (Suc k)"
    using Suc.prems(1) ok sk by (subst zip_cdir_loop_step) simp_all
  finally show ?case .
qed

lemma zip_cdir_loop_found:
  assumes "zip_first_valid raw cdfh0 n cs k"
  shows "zip_cdir_loop raw cdfh0 n cs 0 0 = zip_file_span raw (cdfh0 + cdfh_nth raw cdfh0 k)"
proof -
  from assms have k: "k < n" and ok: "cdfh_ok raw cdfh0 cs (cdfh_nth raw cdfh0 k)"
    and v: "zip_valid_file raw (cdfh0 + cdfh_nth raw cdfh0 k)"
    and sk: "\<forall>j<k. cdfh_ok raw cdfh0 cs (cdfh_nth raw cdfh0 j) \<and> zip_skipped raw (cdfh0 + cdfh_nth raw cdfh0 j)"
    by (auto simp: zip_first_valid_def)
  obtain a b d where s: "zip_file_span raw (cdfh0 + cdfh_nth raw cdfh0 k) = Found a b d"
    by (auto simp: zip_file_span_def Let_def)
  with v have e: "zip_entry raw (cdfh0 + cdfh_nth raw cdfh0 k) = Some (Found a b d)"
    by (simp add: zip_entry_Found_iff)
  have "zip_cdir_loop raw cdfh0 n cs 0 0 = zip_cdir_loop raw cdfh0 n cs (cdfh_nth raw cdfh0 k) k"
    using k sk by (intro zip_cdir_loop_skip) auto
  also have "\<dots> = Found a b d"
    using k ok e by (subst zip_cdir_loop_step) simp_all
  finally show ?thesis using s by simp
qed

lemma zip_cdir_loop_found_conv:
  assumes "zip_cdir_loop raw cdfh0 n cs (cdfh_nth raw cdfh0 i) i = Found a b d"
    and "\<forall>j<i. cdfh_ok raw cdfh0 cs (cdfh_nth raw cdfh0 j) \<and> zip_skipped raw (cdfh0 + cdfh_nth raw cdfh0 j)"
  shows "\<exists>k. zip_first_valid raw cdfh0 n cs k \<and> zip_file_span raw (cdfh0 + cdfh_nth raw cdfh0 k) = Found a b d"
  using assms
proof (induction "n - i" arbitrary: i)
  case 0
  then have "\<not> i < n" by simp
  from zip_cdir_loop_end [OF this] "0.prems"(1) show ?case by simp
next
  case (Suc m)
  then have i: "i < n" by simp
  have ok: "cdfh_ok raw cdfh0 cs (cdfh_nth raw cdfh0 i)"
    using zip_cdir_loop_not_ok [of raw cdfh0 cs "cdfh_nth raw cdfh0 i" n i a b d] Suc.prems(1) by blast
  note st = zip_cdir_loop_step [OF i ok]
  show ?case
  proof (cases "zip_entry raw (cdfh0 + cdfh_nth raw cdfh0 i)")
    case None
    with st Suc.prems(1) have "zip_cdir_loop raw cdfh0 n cs (cdfh_nth raw cdfh0 (Suc i)) (Suc i) = Found a b d"
      by simp
    moreover have "\<forall>j<Suc i. cdfh_ok raw cdfh0 cs (cdfh_nth raw cdfh0 j) \<and> zip_skipped raw (cdfh0 + cdfh_nth raw cdfh0 j)"
      using Suc.prems(2) ok None by (auto simp: less_Suc_eq zip_entry_None_iff)
    moreover have "m = n - Suc i" using Suc.hyps(2) by simp
    ultimately show ?thesis by (rule Suc.hyps(1) [rotated])
  next
    case (Some r)
    with st Suc.prems(1) have "zip_entry raw (cdfh0 + cdfh_nth raw cdfh0 i) = Some (Found a b d)" by simp
    then have "zip_valid_file raw (cdfh0 + cdfh_nth raw cdfh0 i)"
      and s: "zip_file_span raw (cdfh0 + cdfh_nth raw cdfh0 i) = Found a b d"
      by (simp_all add: zip_entry_Found_iff)
    with i ok Suc.prems(2) have "zip_first_valid raw cdfh0 n cs i"
      by (auto simp: zip_first_valid_def less_Suc_eq)
    with s show ?thesis by blast
  qed
qed

lemma zip_cdir_loop_iff:
  "zip_cdir_loop raw cdfh0 n cs 0 0 = Found a b d \<longleftrightarrow>
     (\<exists>k. zip_first_valid raw cdfh0 n cs k \<and> zip_file_span raw (cdfh0 + cdfh_nth raw cdfh0 k) = Found a b d)"
proof
  assume "zip_cdir_loop raw cdfh0 n cs 0 0 = Found a b d"
  then show "\<exists>k. zip_first_valid raw cdfh0 n cs k \<and> zip_file_span raw (cdfh0 + cdfh_nth raw cdfh0 k) = Found a b d"
    using zip_cdir_loop_found_conv [of raw cdfh0 n cs 0 a b d] by simp
next
  assume "\<exists>k. zip_first_valid raw cdfh0 n cs k \<and> zip_file_span raw (cdfh0 + cdfh_nth raw cdfh0 k) = Found a b d"
  then show "zip_cdir_loop raw cdfh0 n cs 0 0 = Found a b d"
    using zip_cdir_loop_found by auto
qed

text \<open>
  Test archives. A local header is followed by a 1-byte name and 2 bytes of payload; a
  central header by the same name. \<open>zip_lfh_streamed\<close> is the local header of an entry
  written as a stream (bit 3 of the flags): method 8, the sizes zero, the real sizes only
  in the central directory. \<open>zip_streamed_first\<close> has such an entry before a deflate entry
  whose local header carries the sizes (local headers at 0 and 33, central headers at 66
  and 113, the end record at 160); \<open>zip_stored_first\<close> has two stored entries before a
  deflate entry (local headers at 0, 33 and 66, central headers at 99, 146 and 193, the end
  record at 240).
\<close>

definition zip_lfh_streamed :: "byte list" where
  "zip_lfh_streamed =
     [0x50, 0x4b, 0x03, 0x04,  20, 0,  8, 0,  8, 0,  0, 0,  0, 0,  0, 0, 0, 0,
      0, 0, 0, 0,  0, 0, 0, 0,  1, 0,  0, 0]"

definition zip_lfh_deflate :: "byte list" where
  "zip_lfh_deflate =
     [0x50, 0x4b, 0x03, 0x04,  20, 0,  0, 0,  8, 0,  0, 0,  0, 0,  0, 0, 0, 0,
      2, 0, 0, 0,  5, 0, 0, 0,  1, 0,  0, 0]"

definition zip_lfh_stored :: "byte list" where
  "zip_lfh_stored =
     [0x50, 0x4b, 0x03, 0x04,  20, 0,  0, 0,  0, 0,  0, 0,  0, 0,  0, 0, 0, 0,
      2, 0, 0, 0,  2, 0, 0, 0,  1, 0,  0, 0]"

definition zip_cdfh_entry :: "byte \<Rightarrow> byte \<Rightarrow> byte \<Rightarrow> byte \<Rightarrow> byte list" where
  "zip_cdfh_entry method usize c hdr_ofs =
     [0x50, 0x4b, 0x01, 0x02,  20, 0,  20, 0,  0, 0,  method, 0,  0, 0,  0, 0,  0, 0, 0, 0,
      2, 0, 0, 0,  usize, 0, 0, 0,  1, 0,  0, 0,  0, 0,  0, 0,  0, 0,  0, 0, 0, 0,
      hdr_ofs, 0, 0, 0,  c]"

definition zip_eocd :: "byte \<Rightarrow> byte \<Rightarrow> byte \<Rightarrow> byte list" where
  "zip_eocd n cdir_size cdir_offset =
     [0x50, 0x4b, 0x05, 0x06,  0, 0,  0, 0,  n, 0,  n, 0,  cdir_size, 0, 0, 0,
      cdir_offset, 0, 0, 0,  0, 0]"

definition zip_streamed_first :: "byte list" where
  "zip_streamed_first =
     zip_lfh_streamed @ [0x61, 0x11, 0x12] @ zip_lfh_deflate @ [0x62, 0x21, 0x22] @
     zip_cdfh_entry 8 5 0x61 0 @ zip_cdfh_entry 8 5 0x62 33 @ zip_eocd 2 94 66"

definition zip_stored_first :: "byte list" where
  "zip_stored_first =
     zip_lfh_stored @ [0x61, 0x11, 0x12] @ zip_lfh_stored @ [0x62, 0x21, 0x22] @
     zip_lfh_deflate @ [0x63, 0x31, 0x32] @
     zip_cdfh_entry 0 2 0x61 0 @ zip_cdfh_entry 0 2 0x62 33 @ zip_cdfh_entry 8 5 0x63 66 @
     zip_eocd 3 141 99"

text \<open>
  Claim C8, as stated, fails: in \<open>zip_streamed_first\<close> the first central entry has
  method 8 and nonzero sizes, and its local header, at offset 0, is in the buffer and has the
  valid signature, so the claim has the payload at 31 returned. The local header declares
  the sizes 0, the loop skips the entry and returns the payload of the second one, at 64.
\<close>

theorem zip_streamed_first_counterexample:
  "OpenZipArchive zip_streamed_first =
     Some (True, \<lparr>za_eocd = Some 160, za_eocdl = None, za_cdfh = Some 66\<rparr>) \<and>
   cdfh_sig zip_streamed_first 66 = 0x02014b50 \<and>
   central_deflate zip_streamed_first 66 \<and>
   unat (cdfh_hdr_ofs zip_streamed_first 66) = 0 \<and>
   local_header_valid zip_streamed_first 0 \<and>
   file_start zip_streamed_first 0 = 31 \<and>
   io_uncompress_zip zip_streamed_first = Found 64 2 5"
  by code_simp

text \<open>
  Claim C8, amended. When \<open>OpenZipArchive\<close> succeeds, the walk returns a result exactly
  when there is an entry \<open>k\<close> below \<open>num_entries\<close> such that the central headers up to
  \<open>k\<close>, each 46 bytes plus its name, extra and comment lengths behind the one before,
  are readable, lie within \<open>cdir_size\<close> and carry the signature 0x02014b50, every entry
  before \<open>k\<close> is skipped, and entry \<open>k\<close> is valid: method 8 and nonzero sizes in the
  central header and in the local header, the local header with its name and extra field
  in the buffer and with the signature 0x04034b50, the payload ending in the buffer. The
  result is then the payload span and the uncompressed size that the local header of
  entry \<open>k\<close> declares. An entry whose method is not 8, a stored one in particular, is
  skipped.
\<close>

theorem zip_first_valid_entry:
  assumes "OpenZipArchive raw = Some (True, za)"
  shows "\<exists>eocd cdfh0. za_eocd za = Some eocd \<and> za_cdfh za = Some cdfh0 \<and>
     (io_uncompress_zip raw = Found a b d \<longleftrightarrow>
        (\<exists>k. zip_first_valid raw cdfh0 (unat (eocd_num_entries raw eocd))
                (unat (eocd_cdir_size raw eocd)) k \<and>
             zip_file_span raw (cdfh0 + cdfh_nth raw cdfh0 k) = Found a b d)) \<and>
     (\<forall>p. cdfh_comp_method raw p \<noteq> 8 \<longrightarrow> zip_entry raw p = None)"
proof -
  from assms have "za_eocd za \<noteq> None \<and> za_cdfh za \<noteq> None"
    by (auto simp: OpenZipArchive_def split: option.splits if_splits)
  then obtain eocd cdfh0 where z: "za_eocd za = Some eocd" "za_cdfh za = Some cdfh0" by auto
  with assms have "io_uncompress_zip raw =
      zip_cdir_loop raw cdfh0 (unat (eocd_num_entries raw eocd)) (unat (eocd_cdir_size raw eocd)) 0 0"
    by (simp add: io_uncompress_zip_def)
  moreover have "\<forall>p. cdfh_comp_method raw p \<noteq> 8 \<longrightarrow> zip_entry raw p = None"
    by (simp add: zip_entry_def)
  ultimately show ?thesis using z by (simp add: zip_cdir_loop_iff)
qed

lemma zip_stored_first_open:
  "OpenZipArchive zip_stored_first =
     Some (True, \<lparr>za_eocd = Some 240, za_eocdl = None, za_cdfh = Some 99\<rparr>)"
  by code_simp

lemma zip_stored_first_eocd:
  "unat (eocd_num_entries zip_stored_first 240) = 3 \<and> unat (eocd_cdir_size zip_stored_first 240) = 141"
  by code_simp

lemma zip_stored_first_valid:
  "zip_first_valid zip_stored_first 99 3 141 2 \<and>
   cdfh_comp_method zip_stored_first (99 + cdfh_nth zip_stored_first 99 0) = 0 \<and>
   cdfh_comp_method zip_stored_first (99 + cdfh_nth zip_stored_first 99 1) = 0 \<and>
   zip_file_span zip_stored_first (99 + cdfh_nth zip_stored_first 99 2) = Found 97 2 5"
  by code_simp

theorem zip_first_valid_entry_witness:
  "OpenZipArchive zip_stored_first =
     Some (True, \<lparr>za_eocd = Some 240, za_eocdl = None, za_cdfh = Some 99\<rparr>) \<and>
   zip_first_valid zip_stored_first 99 3 141 2 \<and>
   cdfh_comp_method zip_stored_first (99 + cdfh_nth zip_stored_first 99 0) = 0 \<and>
   cdfh_comp_method zip_stored_first (99 + cdfh_nth zip_stored_first 99 1) = 0 \<and>
   io_uncompress_zip zip_stored_first = Found 97 2 5"
proof -
  from zip_first_valid_entry [OF zip_stored_first_open, of 97 2 5]
  have "io_uncompress_zip zip_stored_first = Found 97 2 5 \<longleftrightarrow>
      (\<exists>k. zip_first_valid zip_stored_first 99 3 141 k \<and>
           zip_file_span zip_stored_first (99 + cdfh_nth zip_stored_first 99 k) = Found 97 2 5)"
    by (simp add: zip_stored_first_eocd)
  with zip_stored_first_valid have "io_uncompress_zip zip_stored_first = Found 97 2 5" by blast
  with zip_stored_first_open zip_stored_first_valid show ?thesis by simp
qed

end
